theory Spec2Isabelle
  imports Complex_Main "HOL-Library.Multiset"
begin

section \<open>Values: doubles, vectors, matrices\<close>

text \<open>
  The source (\<^verbatim>\<open>src/rcpp_EMprec.cpp\<close>) computes with C++ \<^verbatim>\<open>double\<close>s held in
  Armadillo matrices. The only property of a cell that the control flow inspects is
  whether it is finite (\<^verbatim>\<open>find_finite\<close>, \<^verbatim>\<open>find_nonfinite\<close>). A double is
  therefore a finite value, one of the two infinities, or NaN. In the first sections
  arithmetic on finite values is exact real arithmetic, without rounding and overflow,
  and a statement there about a computed number is a statement about the exact value;
  the non-finite values follow the IEEE 754 rules. The section on the operations over
  any arithmetic gives the functions of the source once more, with the arithmetic and
  the library routines as parameters, and the arithmetic of binary64 as one instance;
  the statements that depend on rounding, or on when the library's \<^verbatim>\<open>inv\<close> raises,
  are made there.
\<close>

datatype dbl = Fin real | PInf | NInf | NaN

fun is_finite :: "dbl \<Rightarrow> bool" where
  "is_finite (Fin _) = True"
| "is_finite _ = False"

fun dadd :: "dbl \<Rightarrow> dbl \<Rightarrow> dbl" where
  "dadd (Fin a) (Fin b) = Fin (a + b)"
| "dadd NaN _ = NaN"
| "dadd _ NaN = NaN"
| "dadd PInf NInf = NaN"
| "dadd NInf PInf = NaN"
| "dadd PInf _ = PInf"
| "dadd _ PInf = PInf"
| "dadd NInf _ = NInf"
| "dadd _ NInf = NInf"

fun dneg :: "dbl \<Rightarrow> dbl" where
  "dneg (Fin a) = Fin (- a)"
| "dneg PInf = NInf"
| "dneg NInf = PInf"
| "dneg NaN = NaN"

definition dsub :: "dbl \<Rightarrow> dbl \<Rightarrow> dbl" where
  "dsub a b = dadd a (dneg b)"

text \<open>An infinity of the sign of \<open>s\<close>; the product of an infinity with zero is NaN.\<close>

definition inf_of_sign :: "real \<Rightarrow> dbl" where
  "inf_of_sign s = (if s = 0 then NaN else if 0 < s then PInf else NInf)"

fun dmul :: "dbl \<Rightarrow> dbl \<Rightarrow> dbl" where
  "dmul (Fin a) (Fin b) = Fin (a * b)"
| "dmul NaN _ = NaN"
| "dmul _ NaN = NaN"
| "dmul PInf (Fin b) = inf_of_sign b"
| "dmul NInf (Fin b) = inf_of_sign (- b)"
| "dmul (Fin a) PInf = inf_of_sign a"
| "dmul (Fin a) NInf = inf_of_sign (- a)"
| "dmul PInf PInf = PInf"
| "dmul NInf NInf = PInf"
| "dmul PInf NInf = NInf"
| "dmul NInf PInf = NInf"

fun ddiv :: "dbl \<Rightarrow> dbl \<Rightarrow> dbl" where
  "ddiv (Fin a) (Fin b) = (if b = 0 then inf_of_sign a else Fin (a / b))"
| "ddiv NaN _ = NaN"
| "ddiv _ NaN = NaN"
| "ddiv (Fin a) PInf = Fin 0"
| "ddiv (Fin a) NInf = Fin 0"
| "ddiv PInf (Fin b) = (if 0 \<le> b then PInf else NInf)"
| "ddiv NInf (Fin b) = (if 0 \<le> b then NInf else PInf)"
| "ddiv PInf PInf = NaN"
| "ddiv PInf NInf = NaN"
| "ddiv NInf PInf = NaN"
| "ddiv NInf NInf = NaN"

text \<open>\<^verbatim>\<open>log\<close> of \<^verbatim>\<open><cmath>\<close>: NaN below zero, minus infinity at zero.\<close>

fun log_d :: "dbl \<Rightarrow> dbl" where
  "log_d (Fin a) = (if a < 0 then NaN else if a = 0 then NInf else Fin (ln a))"
| "log_d PInf = PInf"
| "log_d NInf = NaN"
| "log_d NaN = NaN"

text \<open>
  A column vector (\<^verbatim>\<open>arma::colvec\<close>) is the list of its entries. A matrix
  (\<^verbatim>\<open>arma::mat\<close>, \<^verbatim>\<open>Rcpp::NumericMatrix\<close>) is the list of its rows; all rows of a
  matrix have the same length. The matrix without rows is the \<open>0 \<times> 0\<close> matrix; a
  matrix without rows but with columns has no representation, and none is needed:
  on data without rows the loops of the source do nothing, and the statements about
  \<^verbatim>\<open>EMcycleprec\<close>, which divides by the number of rows, are for data with at least
  one row.
\<close>

type_synonym vec = "dbl list"
type_synonym mat = "dbl list list"

definition n_rows :: "mat \<Rightarrow> nat" where
  "n_rows M = length M"

definition n_cols :: "mat \<Rightarrow> nat" where
  "n_cols M = (case M of [] \<Rightarrow> 0 | r # _ \<Rightarrow> length r)"

text \<open>\<open>is_mat M n p\<close>: \<open>M\<close> is a well-formed \<open>n \<times> p\<close> matrix.\<close>

definition is_mat :: "mat \<Rightarrow> nat \<Rightarrow> nat \<Rightarrow> bool" where
  "is_mat M n p = (length M = n \<and> list_all (\<lambda>r. length r = p) M)"

text \<open>
  The exceptions that Armadillo raises and Rcpp hands to the caller:
  an index out of bounds (\<^verbatim>\<open>std::out_of_range\<close>), a matrix of the wrong shape
  (\<^verbatim>\<open>std::logic_error\<close>), and a singular matrix in \<^verbatim>\<open>inv\<close>
  (\<^verbatim>\<open>std::runtime_error\<close>).
\<close>

datatype error = out_of_range | logic_error | runtime_error

definition bind_e :: "error + 'a \<Rightarrow> ('a \<Rightarrow> error + 'b) \<Rightarrow> error + 'b" where
  "bind_e m f = (case m of Inl e \<Rightarrow> Inl e | Inr x \<Rightarrow> f x)"

subsection \<open>Index sets of a row\<close>

text \<open>
  \<^verbatim>\<open>find_finite(d.row(i))\<close> and \<^verbatim>\<open>find_nonfinite(d.row(i))\<close>: the column indices,
  ascending, of the finite and of the non-finite cells of a row.
\<close>

definition find_finite :: "dbl list \<Rightarrow> nat list" where
  "find_finite r = filter (\<lambda>j. is_finite (r ! j)) [0..<length r]"

definition find_nonfinite :: "dbl list \<Rightarrow> nat list" where
  "find_nonfinite r = filter (\<lambda>j. \<not> is_finite (r ! j)) [0..<length r]"

subsection \<open>Element and submatrix access\<close>

text \<open>
  \<^verbatim>\<open>muest(io)\<close>: the entries of a vector at a list of indices. Armadillo checks every
  index against the length of the vector.
\<close>

definition elem :: "vec \<Rightarrow> nat list \<Rightarrow> error + vec" where
  "elem v ixs =
     (if list_all (\<lambda>i. i < length v) ixs then Inr (map (\<lambda>i. v ! i) ixs)
      else Inl out_of_range)"

text \<open>
  \<^verbatim>\<open>M.submat(ri, ci)\<close> read: the rows \<open>ri\<close> and columns \<open>ci\<close> of \<open>M\<close>, each index
  checked against the shape of \<open>M\<close>.
\<close>

definition submat :: "mat \<Rightarrow> nat list \<Rightarrow> nat list \<Rightarrow> error + mat" where
  "submat M ri ci =
     (if list_all (\<lambda>r. r < n_rows M) ri \<and> list_all (\<lambda>c. c < n_cols M) ci
      then Inr (map (\<lambda>r. map (\<lambda>c. M ! r ! c) ci) ri)
      else Inl out_of_range)"

text \<open>
  \<^verbatim>\<open>M.submat(ri, ci) = X\<close> and \<^verbatim>\<open>M.submat(ri, ci) += X\<close>: the cells of the block are
  written one at a time, cell \<open>(ri ! a, ci ! b)\<close> from \<open>X ! a ! b\<close>. The function \<open>f\<close>
  combines the old cell with the new value: \<open>\<lambda>old new. new\<close> for assignment,
  \<open>dadd\<close> for \<^verbatim>\<open>+=\<close>. An index out of range and a block of another shape than \<open>X\<close>
  are exceptions; they are tested here before the first cell is written. (Armadillo
  tests an index when it reaches it and may by then have written other cells of the
  block. In the source this can happen only to a \<open>t2\<close> that is smaller than the data
  is wide.)
\<close>

definition upd_cols :: "(dbl \<Rightarrow> dbl \<Rightarrow> dbl) \<Rightarrow> dbl list \<Rightarrow> nat list \<Rightarrow> dbl list \<Rightarrow> dbl list" where
  "upd_cols f row ci xs = fold (\<lambda>(c, x) r. r[c := f (r ! c) x]) (zip ci xs) row"

definition upd_rows :: "(dbl \<Rightarrow> dbl \<Rightarrow> dbl) \<Rightarrow> mat \<Rightarrow> nat list \<Rightarrow> nat list \<Rightarrow> mat \<Rightarrow> mat" where
  "upd_rows f M ri ci X = fold (\<lambda>(r, xs) m. m[r := upd_cols f (m ! r) ci xs]) (zip ri X) M"

definition submat_update ::
  "(dbl \<Rightarrow> dbl \<Rightarrow> dbl) \<Rightarrow> mat \<Rightarrow> nat list \<Rightarrow> nat list \<Rightarrow> mat \<Rightarrow> error + mat" where
  "submat_update f M ri ci X =
     (if \<not> (list_all (\<lambda>r. r < n_rows M) ri \<and> list_all (\<lambda>c. c < n_cols M) ci)
      then Inl out_of_range
      else if \<not> (length X = length ri \<and> list_all (\<lambda>xs. length xs = length ci) X)
      then Inl logic_error
      else Inr (upd_rows f M ri ci X))"

subsection \<open>Linear algebra\<close>

text \<open>
  Sums, products and differences of vectors and matrices. In the source the shapes of
  the operands of every product and difference agree by construction (they are cut
  out with the same index lists), so Armadillo's conformance checks cannot fire there.
\<close>

definition dsum :: "dbl list \<Rightarrow> dbl" where
  "dsum xs = foldr dadd xs (Fin 0)"

definition dot :: "vec \<Rightarrow> vec \<Rightarrow> dbl" where
  "dot u v = dsum (map2 dmul u v)"

definition vsub :: "vec \<Rightarrow> vec \<Rightarrow> vec" where
  "vsub u v = map2 dsub u v"

text \<open>\<^verbatim>\<open>M.t()\<close>: the list of the columns of \<open>M\<close>.\<close>

definition trans_m :: "mat \<Rightarrow> mat" where
  "trans_m M = map (\<lambda>j. map (\<lambda>r. r ! j) M) [0..<n_cols M]"

text \<open>\<open>A * v\<close>, \<open>v.t() * A\<close> and \<open>A * B\<close>.\<close>

definition mv :: "mat \<Rightarrow> vec \<Rightarrow> vec" where
  "mv A v = map (\<lambda>r. dot r v) A"

definition vm :: "vec \<Rightarrow> mat \<Rightarrow> vec" where
  "vm v A = map (\<lambda>c. dot v c) (trans_m A)"

definition mm :: "mat \<Rightarrow> mat \<Rightarrow> mat" where
  "mm A B = map (\<lambda>r. vm r B) A"

definition msub :: "mat \<Rightarrow> mat \<Rightarrow> mat" where
  "msub A B = map2 vsub A B"

text \<open>\<open>u * v.t()\<close>, and a vector or a matrix divided by a scalar.\<close>

definition outer :: "vec \<Rightarrow> vec \<Rightarrow> mat" where
  "outer u v = map (\<lambda>a. map (\<lambda>b. dmul a b) v) u"

definition vdiv :: "vec \<Rightarrow> dbl \<Rightarrow> vec" where
  "vdiv v s = map (\<lambda>a. ddiv a s) v"

definition mdiv :: "mat \<Rightarrow> dbl \<Rightarrow> mat" where
  "mdiv M s = map (\<lambda>r. vdiv r s) M"

text \<open>
  \<^verbatim>\<open>det\<close> and \<^verbatim>\<open>inv\<close> are routines of the linear algebra library. They are taken to
  be correct: \<open>det\<close> is the determinant, here by expansion along the first row, and
  \<open>inv_m\<close> is the inverse, here the adjugate divided by the determinant. \<^verbatim>\<open>inv\<close>
  raises \<^verbatim>\<open>std::logic_error\<close> on a matrix that is not square and
  \<^verbatim>\<open>std::runtime_error\<close> on a singular one; it has no other test, in particular
  none for definiteness or symmetry. The determinant and the inverse of the
  \<open>0 \<times> 0\<close> matrix are \<open>1\<close> and the \<open>0 \<times> 0\<close> matrix.
\<close>

definition del_nth :: "nat \<Rightarrow> 'a list \<Rightarrow> 'a list" where
  "del_nth k xs = take k xs @ drop (Suc k) xs"

definition sign_d :: "nat \<Rightarrow> dbl" where
  "sign_d k = Fin (if even k then 1 else - 1)"

fun det :: "mat \<Rightarrow> dbl" where
  "det [] = Fin 1"
| "det (r # rs) =
     dsum (map (\<lambda>j. dmul (dmul (sign_d j) (r ! j)) (det (map (del_nth j) rs))) [0..<length r])"

definition minor_m :: "mat \<Rightarrow> nat \<Rightarrow> nat \<Rightarrow> mat" where
  "minor_m M i j = map (del_nth j) (del_nth i M)"

definition cofactor :: "mat \<Rightarrow> nat \<Rightarrow> nat \<Rightarrow> dbl" where
  "cofactor M i j = dmul (sign_d (i + j)) (det (minor_m M i j))"

definition is_square :: "mat \<Rightarrow> bool" where
  "is_square M = list_all (\<lambda>r. length r = length M) M"

definition inv_m :: "mat \<Rightarrow> error + mat" where
  "inv_m M =
     (if \<not> is_square M then Inl logic_error
      else if det M = Fin 0 then Inl runtime_error
      else Inr (map (\<lambda>i. map (\<lambda>j. ddiv (cofactor M j i) (det M)) [0..<length M])
                  [0..<length M]))"


section \<open>The operations of the source\<close>

text \<open>
  The transpose of a \<open>1 \<times> n\<close> matrix read as a column vector, and back.
\<close>

definition colvec_of :: "mat \<Rightarrow> vec" where
  "colvec_of X = concat X"

definition rowmat_of :: "vec \<Rightarrow> mat" where
  "rowmat_of v = [v]"

subsection \<open>\<^verbatim>\<open>imp1matprec\<close>: first part of the E step\<close>

text \<open>
  The body of the loop over the rows, line 31 to 35 of the source: with \<open>io\<close> and \<open>im\<close>
  the finite and non-finite columns of row \<open>i\<close> of the working copy \<open>d\<close>,
  \<^verbatim>\<open>d.submat(idx,im) = (muest(im) - inv(kest.submat(im,im)) * kest.submat(im,io) * (d.submat(idx,io).t() - muest(io))).t()\<close>.
  The first exception ends the call. C++ and the library leave open in which order the
  operands are evaluated; here it is from left to right. The order decides which of
  two exceptions a call ends in when both an index is out of range and a block is
  singular, and nothing else.
\<close>

definition imp1_row :: "nat \<Rightarrow> mat \<Rightarrow> vec \<Rightarrow> mat \<Rightarrow> error + mat" where
  "imp1_row i d muest kest =
     (let io = find_finite (d ! i);
          im = find_nonfinite (d ! i);
          idx = [i]
      in bind_e (elem muest im) (\<lambda>mu_m.
         bind_e (submat kest im im) (\<lambda>k_mm.
         bind_e (inv_m k_mm) (\<lambda>k_inv.
         bind_e (submat kest im io) (\<lambda>k_mo.
         bind_e (submat d idx io) (\<lambda>x_o.
         bind_e (elem muest io) (\<lambda>mu_o.
           submat_update (\<lambda>old new. new) d idx im
             (rowmat_of (vsub mu_m (mv (mm k_inv k_mo) (vsub (colvec_of x_o) mu_o)))))))))))"

fun imp1_loop :: "nat list \<Rightarrow> mat \<Rightarrow> vec \<Rightarrow> mat \<Rightarrow> error + mat" where
  "imp1_loop [] d muest kest = Inr d"
| "imp1_loop (i # is) d muest kest =
     (case imp1_row i d muest kest of
        Inl e \<Rightarrow> Inl e
      | Inr d' \<Rightarrow> imp1_loop is d' muest kest)"

text \<open>
  \<open>d\<close> starts as a copy of \<open>D\<close> (the constructor is called with
  \<^verbatim>\<open>copy_aux_mem = true\<close>), the loop runs over the rows \<open>0, \<dots>, N - 1\<close>, and \<open>d\<close> is
  returned. The section on memory below shows that the copy keeps \<open>D\<close> as it was.
\<close>

definition imp1matprec :: "mat \<Rightarrow> vec \<Rightarrow> mat \<Rightarrow> error + mat" where
  "imp1matprec D muest kest = imp1_loop [0..<n_rows D] D muest kest"

subsection \<open>\<^verbatim>\<open>imp2matprec\<close>: second part of the E step\<close>

text \<open>
  Line 50 and 51: \<^verbatim>\<open>t2.submat(im,im) += inv(kest.submat(im,im))\<close>. The matrix \<open>t2\<close> is
  passed by reference and written in place, so the function is modelled by the state
  of \<open>t2\<close> that it leaves behind, together with the exception, if any, that ended it:
  the rows before a failing row have then already been added.
\<close>

definition imp2_row :: "nat \<Rightarrow> mat \<Rightarrow> mat \<Rightarrow> mat \<Rightarrow> error + mat" where
  "imp2_row i d kest t2 =
     (let im = find_nonfinite (d ! i)
      in bind_e (submat kest im im) (\<lambda>k_mm.
         bind_e (inv_m k_mm) (\<lambda>k_inv.
           submat_update dadd t2 im im k_inv)))"

fun imp2_loop :: "nat list \<Rightarrow> mat \<Rightarrow> mat \<Rightarrow> mat \<Rightarrow> error option \<times> mat" where
  "imp2_loop [] d kest t2 = (None, t2)"
| "imp2_loop (i # is) d kest t2 =
     (case imp2_row i d kest t2 of
        Inl e \<Rightarrow> (Some e, t2)
      | Inr t2' \<Rightarrow> imp2_loop is d kest t2')"

definition imp2matprec :: "mat \<Rightarrow> mat \<Rightarrow> mat \<Rightarrow> error option \<times> mat" where
  "imp2matprec D kest t2 = imp2_loop [0..<n_rows D] D kest t2"

subsection \<open>\<^verbatim>\<open>EMcycleprec\<close>: one EM cycle\<close>

definition ones :: "nat \<Rightarrow> vec" where
  "ones n = replicate n (Fin 1)"

text \<open>
  The result list with the entries \<^verbatim>\<open>mu\<close>, \<^verbatim>\<open>S\<close> and \<^verbatim>\<open>K\<close> is the triple
  \<open>(newmu, newS, newK)\<close>. An exception inside \<^verbatim>\<open>imp2matprec\<close> ends the cycle; the
  local \<open>t2\<close> is then lost.
\<close>

definition EMcycleprec :: "mat \<Rightarrow> vec \<Rightarrow> mat \<Rightarrow> error + (vec \<times> mat \<times> mat)" where
  "EMcycleprec D muest kest =
     bind_e (imp1matprec D muest kest) (\<lambda>dimp.
       let N = n_rows dimp;
           t1 = mv (trans_m dimp) (ones N);
           t2 = mm (trans_m dimp) dimp
       in (case imp2matprec D kest t2 of
             (Some e, _) \<Rightarrow> Inl e
           | (None, t2') \<Rightarrow>
               let newmu = vdiv t1 (Fin (real N));
                   newS = msub (mdiv t2' (Fin (real N))) (outer newmu newmu)
               in bind_e (inv_m newS) (\<lambda>newK. Inr (newmu, newS, newK))))"

subsection \<open>\<^verbatim>\<open>nllprec\<close>: negative log-likelihood\<close>

text \<open>
  Line 103 to 105: the loop body adds to \<open>nll\<close> the value of
  \<^verbatim>\<open>0.5*(log(det(kinv.submat(io,io))) + (d.submat(idx,io).t() - muest(io)).t() * inv(kinv.submat(io,io)) * (d.submat(idx,io).t() - muest(io)) + (io.size())*log(2*arma::datum::pi))\<close>.
\<close>

definition log_2pi :: dbl where
  "log_2pi = log_d (dmul (Fin 2) (Fin pi))"

definition nll_row :: "nat \<Rightarrow> mat \<Rightarrow> vec \<Rightarrow> mat \<Rightarrow> dbl \<Rightarrow> error + dbl" where
  "nll_row i d muest kinv nll =
     (let io = find_finite (d ! i);
          idx = [i]
      in bind_e (submat kinv io io) (\<lambda>s_oo.
         bind_e (submat d idx io) (\<lambda>x_o.
         bind_e (elem muest io) (\<lambda>mu_o.
         bind_e (inv_m s_oo) (\<lambda>s_inv.
           let v = vsub (colvec_of x_o) mu_o
           in Inr (dadd nll
                (dmul (Fin (1 / 2))
                   (dadd (dadd (log_d (det s_oo)) (dot (vm v s_inv) v))
                      (dmul (Fin (real (length io))) log_2pi)))))))))"

fun nll_loop :: "nat list \<Rightarrow> mat \<Rightarrow> vec \<Rightarrow> mat \<Rightarrow> dbl \<Rightarrow> error + dbl" where
  "nll_loop [] d muest kinv nll = Inr nll"
| "nll_loop (i # is) d muest kinv nll =
     (case nll_row i d muest kinv nll of
        Inl e \<Rightarrow> Inl e
      | Inr nll' \<Rightarrow> nll_loop is d muest kinv nll')"

definition nllprec :: "mat \<Rightarrow> vec \<Rightarrow> mat \<Rightarrow> error + dbl" where
  "nllprec d muest kest =
     bind_e (inv_m kest) (\<lambda>kinv. nll_loop [0..<n_rows d] d muest kinv (Fin 0))"


section \<open>The formulas of the specification\<close>

text \<open>
  The conditional mean of the specification, for one row \<open>x\<close> of the data:
  \<open>x\<^sub>m = \<mu>\<^sub>m - K\<^sub>m\<^sub>m\<inverse> \<cdot> K\<^sub>m\<^sub>o \<cdot> (x\<^sub>o - \<mu>\<^sub>o)\<close>, where \<open>o\<close> and \<open>m\<close> are the observed
  and the missing columns of \<open>x\<close>.
\<close>

definition cond_mean :: "dbl list \<Rightarrow> vec \<Rightarrow> mat \<Rightarrow> error + vec" where
  "cond_mean x \<mu> K =
     (let obs = find_finite x; mis = find_nonfinite x
      in bind_e (elem \<mu> mis) (\<lambda>\<mu>_m.
         bind_e (submat K mis mis) (\<lambda>K_mm.
         bind_e (inv_m K_mm) (\<lambda>K_mm_inv.
         bind_e (submat K mis obs) (\<lambda>K_mo.
         bind_e (elem x obs) (\<lambda>x_o.
         bind_e (elem \<mu> obs) (\<lambda>\<mu>_o.
           Inr (vsub \<mu>_m (mv (mm K_mm_inv K_mo) (vsub x_o \<mu>_o))))))))))"

text \<open>
  \<open>K\<^sub>m\<^sub>m\<inverse>\<close> for an index list: the inverse of the block of \<open>K\<close> with these
  rows and columns.
\<close>

definition inv_block :: "mat \<Rightarrow> nat list \<Rightarrow> error + mat" where
  "inv_block K ixs = bind_e (submat K ixs ixs) inv_m"

text \<open>
  The correction of the second moment in the specification:
  \<open>T2[missing(i), missing(i)] += K\<^sub>m\<^sub>m\<inverse>\<close> for every row \<open>i\<close> with a non-empty missing
  set. \<open>pos ixs r\<close> is the place of \<open>r\<close> in the index list \<open>ixs\<close>, and
  \<open>add_block T ixs X\<close> is \<open>T\<close> with \<open>X\<close> added into the block of the rows and columns
  \<open>ixs\<close>, every other cell kept.
\<close>

fun pos :: "nat list \<Rightarrow> nat \<Rightarrow> nat" where
  "pos [] r = 0"
| "pos (x # xs) r = (if x = r then 0 else Suc (pos xs r))"

definition add_block :: "mat \<Rightarrow> nat list \<Rightarrow> mat \<Rightarrow> mat" where
  "add_block T ixs X =
     map (\<lambda>r. map (\<lambda>c. if r \<in> set ixs \<and> c \<in> set ixs
                         then dadd (T ! r ! c) (X ! pos ixs r ! pos ixs c)
                         else T ! r ! c)
                 [0..<length (T ! r)])
         [0..<length T]"

fun spec_correction :: "mat \<Rightarrow> mat \<Rightarrow> mat \<Rightarrow> error + mat" where
  "spec_correction [] K T2 = Inr T2"
| "spec_correction (x # xs) K T2 =
     (if find_nonfinite x = [] then spec_correction xs K T2
      else bind_e (inv_block K (find_nonfinite x)) (\<lambda>K_mm_inv.
             spec_correction xs K (add_block T2 (find_nonfinite x) K_mm_inv)))"

text \<open>
  The terms that the correction adds to the cell \<open>(r, c)\<close> of \<open>T2\<close>, one for every row of
  the data in which both \<open>r\<close> and \<open>c\<close> are missing: the entry of \<open>K\<^sub>m\<^sub>m\<inverse>\<close> at the places
  of \<open>r\<close> and \<open>c\<close> in the missing set of that row.
\<close>

definition correction_term :: "mat \<Rightarrow> nat \<Rightarrow> nat \<Rightarrow> dbl list \<Rightarrow> dbl list" where
  "correction_term K r c x =
     (let mis = find_nonfinite x
      in if r \<in> set mis \<and> c \<in> set mis
         then (case inv_block K mis of
                 Inl e \<Rightarrow> []
               | Inr K_mm_inv \<Rightarrow> [K_mm_inv ! pos mis r ! pos mis c])
         else [])"

definition correction_terms :: "mat \<Rightarrow> nat \<Rightarrow> nat \<Rightarrow> mat \<Rightarrow> dbl list" where
  "correction_terms K r c D = concat (map (correction_term K r c) D)"

text \<open>
  The negative log-likelihood of the specification. For one row \<open>x\<close> and the
  covariance \<open>S = K\<inverse>\<close>:
  \<open>nll\<^sub>i = 0.5 \<cdot> (log det(S\<^sub>o\<^sub>o) + (x\<^sub>o - \<mu>\<^sub>o)\<^sup>t \<cdot> S\<^sub>o\<^sub>o\<inverse> \<cdot> (x\<^sub>o - \<mu>\<^sub>o) + |observed(i)| \<cdot> log(2\<pi>))\<close>,
  where \<open>S\<^sub>o\<^sub>o\<close> is the block of \<open>S\<close> with the observed rows and columns. The total is
  the sum over the rows, with \<open>K\<close> inverted once.
\<close>

definition nll_i :: "dbl list \<Rightarrow> vec \<Rightarrow> mat \<Rightarrow> error + dbl" where
  "nll_i x \<mu> S =
     (let obs = find_finite x
      in bind_e (submat S obs obs) (\<lambda>S_oo.
         bind_e (elem x obs) (\<lambda>x_o.
         bind_e (elem \<mu> obs) (\<lambda>\<mu>_o.
         bind_e (inv_m S_oo) (\<lambda>S_oo_inv.
           Inr (dmul (Fin (1 / 2))
                  (dadd (dadd (log_d (det S_oo))
                              (dot (vm (vsub x_o \<mu>_o) S_oo_inv) (vsub x_o \<mu>_o)))
                        (dmul (Fin (real (length obs))) (log_d (Fin (2 * pi)))))))))))"

fun nll_sum :: "mat \<Rightarrow> vec \<Rightarrow> mat \<Rightarrow> error + dbl" where
  "nll_sum [] \<mu> S = Inr (Fin 0)"
| "nll_sum (x # xs) \<mu> S =
     bind_e (nll_i x \<mu> S) (\<lambda>a. bind_e (nll_sum xs \<mu> S) (\<lambda>b. Inr (dadd a b)))"

definition spec_nll :: "mat \<Rightarrow> vec \<Rightarrow> mat \<Rightarrow> error + dbl" where
  "spec_nll D \<mu> K = bind_e (inv_m K) (\<lambda>S. nll_sum D \<mu> S)"

text \<open>
  The sufficient statistics and the update of the specification. \<open>T1\<close> is the sum of
  the rows of the completed matrix, \<open>T2\<close> its Gram matrix plus the correction;
  \<open>\<mu>\<^sub>n\<^sub>e\<^sub>w = T1 / N\<close>, \<open>S\<^sub>n\<^sub>e\<^sub>w = T2 / N - \<mu>\<^sub>n\<^sub>e\<^sub>w \<cdot> \<mu>\<^sub>n\<^sub>e\<^sub>w\<^sup>t\<close>, \<open>K\<^sub>n\<^sub>e\<^sub>w = S\<^sub>n\<^sub>e\<^sub>w\<inverse>\<close>.
\<close>

definition col_sums :: "mat \<Rightarrow> vec" where
  "col_sums C = map (\<lambda>j. dsum (map (\<lambda>row. row ! j) C)) [0..<n_cols C]"




text \<open>
  Two data matrices of the same shape that agree on the finite cells and have their
  non-finite cells at the same places, whichever non-finite values these are.
\<close>

definition same_cell :: "dbl \<Rightarrow> dbl \<Rightarrow> bool" where
  "same_cell a b = (if is_finite a then b = a else \<not> is_finite b)"


text \<open>
  Imputation row by row, as the specification describes it: every row has its missing
  cells replaced by the entries of its conditional mean; the first row without a
  conditional mean ends the imputation.
\<close>

definition fill_row :: "dbl list \<Rightarrow> vec \<Rightarrow> dbl list" where
  "fill_row x xhat =
     map (\<lambda>j. if is_finite (x ! j) then x ! j else xhat ! pos (find_nonfinite x) j) [0..<length x]"

fun spec_impute :: "mat \<Rightarrow> vec \<Rightarrow> mat \<Rightarrow> error + mat" where
  "spec_impute [] \<mu> K = Inr []"
| "spec_impute (x # xs) \<mu> K =
     bind_e (cond_mean x \<mu> K) (\<lambda>xhat.
     bind_e (spec_impute xs \<mu> K) (\<lambda>rest. Inr (fill_row x xhat # rest)))"

text \<open>\<open>S_new T1 T2 N\<close> is the covariance of the update.\<close>

definition S_new :: "vec \<Rightarrow> mat \<Rightarrow> nat \<Rightarrow> mat" where
  "S_new T1 T2 N =
     msub (mdiv T2 (Fin (real N))) (outer (vdiv T1 (Fin (real N))) (vdiv T1 (Fin (real N))))"

text \<open>
  A vector that continues \<open>\<mu>\<close> with further entries, and a matrix that has \<open>K\<close> as its
  upper left block.
\<close>

definition extends_vec :: "vec \<Rightarrow> vec \<Rightarrow> bool" where
  "extends_vec \<mu>' \<mu> = (take (length \<mu>) \<mu>' = \<mu>)"

definition extends_mat :: "mat \<Rightarrow> mat \<Rightarrow> bool" where
  "extends_mat K' K = (map (take (n_cols K)) (take (length K) K') = K)"

section \<open>The operations on shared memory\<close>

text \<open>
  R hands its matrices and vectors over by reference: an \<^verbatim>\<open>Rcpp::NumericMatrix\<close>, a
  \<^verbatim>\<open>const arma::mat&\<close> and an \<^verbatim>\<open>arma::mat&\<close> all view memory that the caller owns. To
  say which of these objects a call changes, the objects are kept in a store: a list
  of matrices and a list of vectors, an address being a place in its list. A new
  object is put at the end.
\<close>

record heap =
  mats :: "mat list"
  vecs :: "vec list"

definition new_mat :: "heap \<Rightarrow> mat \<Rightarrow> heap \<times> nat" where
  "new_mat h m = (h\<lparr>mats := mats h @ [m]\<rparr>, length (mats h))"

definition new_vec :: "heap \<Rightarrow> vec \<Rightarrow> heap \<times> nat" where
  "new_vec h v = (h\<lparr>vecs := vecs h @ [v]\<rparr>, length (vecs h))"

definition put_mat :: "heap \<Rightarrow> nat \<Rightarrow> mat \<Rightarrow> heap" where
  "put_mat h a m = h\<lparr>mats := (mats h)[a := m]\<rparr>"

text \<open>
  \<^verbatim>\<open>arma::mat d(D.begin(), D.rows(), D.cols(), copy_aux_mem)\<close>: with \<^verbatim>\<open>copy_aux_mem\<close>
  the new matrix is a copy in memory of its own, without it the new matrix uses the
  memory of \<open>D\<close>. The source passes \<^verbatim>\<open>true\<close>.
\<close>

definition mat_ctor :: "heap \<Rightarrow> nat \<Rightarrow> bool \<Rightarrow> heap \<times> nat" where
  "mat_ctor h src copy_aux_mem =
     (if copy_aux_mem then new_mat h (mats h ! src) else (h, src))"

text \<open>
  \<^verbatim>\<open>imp1matprec\<close> on the store: \<open>D\<close>, \<open>muest\<close> and \<open>kest\<close> are addresses, every iteration
  reads the objects where they are and writes row \<open>i\<close> of \<open>d\<close>; the result is the
  address of \<open>d\<close>.
\<close>

fun imp1_loop_h :: "nat list \<Rightarrow> nat \<Rightarrow> nat \<Rightarrow> nat \<Rightarrow> heap \<Rightarrow> heap \<times> (error + nat)" where
  "imp1_loop_h [] d muest kest h = (h, Inr d)"
| "imp1_loop_h (i # is) d muest kest h =
     (case imp1_row i (mats h ! d) (vecs h ! muest) (mats h ! kest) of
        Inl e \<Rightarrow> (h, Inl e)
      | Inr d' \<Rightarrow> imp1_loop_h is d muest kest (put_mat h d d'))"

definition imp1matprec_h :: "heap \<Rightarrow> nat \<Rightarrow> nat \<Rightarrow> nat \<Rightarrow> heap \<times> (error + nat)" where
  "imp1matprec_h h D muest kest =
     (case mat_ctor h D True of
        (h1, d) \<Rightarrow> imp1_loop_h [0..<n_rows (mats h1 ! d)] d muest kest h1)"

text \<open>
  \<^verbatim>\<open>imp2matprec\<close> on the store: \<open>t2\<close> is the address of the caller's matrix, and every
  iteration writes it.
\<close>

fun imp2_loop_h :: "nat list \<Rightarrow> nat \<Rightarrow> nat \<Rightarrow> nat \<Rightarrow> heap \<Rightarrow> heap \<times> error option" where
  "imp2_loop_h [] d kest t2 h = (h, None)"
| "imp2_loop_h (i # is) d kest t2 h =
     (case imp2_row i (mats h ! d) (mats h ! kest) (mats h ! t2) of
        Inl e \<Rightarrow> (h, Some e)
      | Inr t \<Rightarrow> imp2_loop_h is d kest t2 (put_mat h t2 t))"

definition imp2matprec_h :: "heap \<Rightarrow> nat \<Rightarrow> nat \<Rightarrow> nat \<Rightarrow> heap \<times> error option" where
  "imp2matprec_h h D kest t2 =
     (case mat_ctor h D True of
        (h1, d) \<Rightarrow> imp2_loop_h [0..<n_rows (mats h1 ! d)] d kest t2 h1)"

text \<open>
  \<^verbatim>\<open>EMcycleprec\<close> on the store: every local matrix and vector is a new object, and the
  result is the triple of the addresses of \<open>newmu\<close>, \<open>newS\<close> and \<open>newK\<close>.
\<close>

definition EMcycleprec_h ::
  "heap \<Rightarrow> nat \<Rightarrow> nat \<Rightarrow> nat \<Rightarrow> heap \<times> (error + (nat \<times> nat \<times> nat))" where
  "EMcycleprec_h h D muest kest =
     (case imp1matprec_h h D muest kest of
        (h1, Inl e) \<Rightarrow> (h1, Inl e)
      | (h1, Inr dimp) \<Rightarrow>
          (let N = n_rows (mats h1 ! dimp) in
           case new_vec h1 (ones N) of (h2, ones_a) \<Rightarrow>
           case new_vec h2 (mv (trans_m (mats h2 ! dimp)) (vecs h2 ! ones_a)) of (h3, t1) \<Rightarrow>
           case new_mat h3 (mm (trans_m (mats h3 ! dimp)) (mats h3 ! dimp)) of (h4, t2) \<Rightarrow>
           case imp2matprec_h h4 D kest t2 of
             (h5, Some e) \<Rightarrow> (h5, Inl e)
           | (h5, None) \<Rightarrow>
               (case new_vec h5 (vdiv (vecs h5 ! t1) (Fin (real N))) of (h6, newmu) \<Rightarrow>
                case new_mat h6 (msub (mdiv (mats h6 ! t2) (Fin (real N)))
                                   (outer (vecs h6 ! newmu) (vecs h6 ! newmu))) of (h7, newS) \<Rightarrow>
                case inv_m (mats h7 ! newS) of
                  Inl e \<Rightarrow> (h7, Inl e)
                | Inr X \<Rightarrow> (case new_mat h7 X of (h8, newK) \<Rightarrow> (h8, Inr (newmu, newS, newK))))))"

text \<open>
  \<open>keeps h h'\<close>: every object of the store \<open>h\<close> is in the store \<open>h'\<close>, at its address
  and unchanged; \<open>h'\<close> may hold further objects.
\<close>

definition keeps :: "heap \<Rightarrow> heap \<Rightarrow> bool" where
  "keeps h h' =
     (take (length (mats h)) (mats h') = mats h \<and> take (length (vecs h)) (vecs h') = vecs h)"

section \<open>The operations over any arithmetic\<close>

text \<open>
  The sections above compute with exact numbers and with the exact inverse and
  determinant. The source computes with binary64 doubles: every sum, product and
  quotient is rounded, \<^verbatim>\<open>inv\<close> and \<^verbatim>\<open>det\<close> are computed in doubles by the library, and
  whether \<^verbatim>\<open>inv\<close> raises is the library's own test on the rounded matrix. For the
  statements that depend on the difference, the four functions of the source are given
  once more, with the arithmetic and the library routines as parameters: an
  \<open>arith\<close> holds the four operations on doubles, \<^verbatim>\<open>log\<close>, the constant
  \<^verbatim>\<open>arma::datum::pi\<close>, \<^verbatim>\<open>det\<close>, and \<^verbatim>\<open>inv\<close> where it stands alone (\<open>a_inv\<close>) and
  where it is an operand of a product (\<open>a_inv_p\<close>: the library may evaluate such a
  product without forming the inverse, with another test and another rounding). Index
  sets, element access and the writing of blocks are as before; they do no arithmetic.
\<close>

record arith =
  a_add :: "dbl \<Rightarrow> dbl \<Rightarrow> dbl"
  a_sub :: "dbl \<Rightarrow> dbl \<Rightarrow> dbl"
  a_mul :: "dbl \<Rightarrow> dbl \<Rightarrow> dbl"
  a_div :: "dbl \<Rightarrow> dbl \<Rightarrow> dbl"
  a_log :: "dbl \<Rightarrow> dbl"
  a_pi :: dbl
  a_det :: "mat \<Rightarrow> dbl"
  a_inv :: "mat \<Rightarrow> error + mat"
  a_inv_p :: "mat \<Rightarrow> error + mat"

text \<open>Sums, products, differences and quotients of vectors and matrices.\<close>

definition dsum_a :: "arith \<Rightarrow> dbl list \<Rightarrow> dbl" where
  "dsum_a A xs = foldr (a_add A) xs (Fin 0)"

definition dot_a :: "arith \<Rightarrow> vec \<Rightarrow> vec \<Rightarrow> dbl" where
  "dot_a A u v = dsum_a A (map2 (a_mul A) u v)"

definition vsub_a :: "arith \<Rightarrow> vec \<Rightarrow> vec \<Rightarrow> vec" where
  "vsub_a A u v = map2 (a_sub A) u v"

definition mv_a :: "arith \<Rightarrow> mat \<Rightarrow> vec \<Rightarrow> vec" where
  "mv_a A M v = map (\<lambda>r. dot_a A r v) M"

definition vm_a :: "arith \<Rightarrow> vec \<Rightarrow> mat \<Rightarrow> vec" where
  "vm_a A v M = map (\<lambda>c. dot_a A v c) (trans_m M)"

definition mm_a :: "arith \<Rightarrow> mat \<Rightarrow> mat \<Rightarrow> mat" where
  "mm_a A M B = map (\<lambda>r. vm_a A r B) M"

definition msub_a :: "arith \<Rightarrow> mat \<Rightarrow> mat \<Rightarrow> mat" where
  "msub_a A M B = map2 (vsub_a A) M B"

definition outer_a :: "arith \<Rightarrow> vec \<Rightarrow> vec \<Rightarrow> mat" where
  "outer_a A u v = map (\<lambda>x. map (\<lambda>y. a_mul A x y) v) u"

definition vdiv_a :: "arith \<Rightarrow> vec \<Rightarrow> dbl \<Rightarrow> vec" where
  "vdiv_a A v s = map (\<lambda>x. a_div A x s) v"

definition mdiv_a :: "arith \<Rightarrow> mat \<Rightarrow> dbl \<Rightarrow> mat" where
  "mdiv_a A M s = map (\<lambda>r. vdiv_a A r s) M"

text \<open>\<^verbatim>\<open>imp1matprec\<close>, line 24 to 38.\<close>

definition imp1_row_a :: "arith \<Rightarrow> nat \<Rightarrow> mat \<Rightarrow> vec \<Rightarrow> mat \<Rightarrow> error + mat" where
  "imp1_row_a A i d muest kest =
     (let io = find_finite (d ! i);
          im = find_nonfinite (d ! i);
          idx = [i]
      in bind_e (elem muest im) (\<lambda>mu_m.
         bind_e (submat kest im im) (\<lambda>k_mm.
         bind_e (a_inv_p A k_mm) (\<lambda>k_inv.
         bind_e (submat kest im io) (\<lambda>k_mo.
         bind_e (submat d idx io) (\<lambda>x_o.
         bind_e (elem muest io) (\<lambda>mu_o.
           submat_update (\<lambda>old new. new) d idx im
             (rowmat_of (vsub_a A mu_m
                (mv_a A (mm_a A k_inv k_mo) (vsub_a A (colvec_of x_o) mu_o)))))))))))"

fun imp1_loop_a :: "arith \<Rightarrow> nat list \<Rightarrow> mat \<Rightarrow> vec \<Rightarrow> mat \<Rightarrow> error + mat" where
  "imp1_loop_a A [] d muest kest = Inr d"
| "imp1_loop_a A (i # is) d muest kest =
     (case imp1_row_a A i d muest kest of
        Inl e \<Rightarrow> Inl e
      | Inr d' \<Rightarrow> imp1_loop_a A is d' muest kest)"

definition imp1matprec_a :: "arith \<Rightarrow> mat \<Rightarrow> vec \<Rightarrow> mat \<Rightarrow> error + mat" where
  "imp1matprec_a A D muest kest = imp1_loop_a A [0..<n_rows D] D muest kest"

text \<open>\<^verbatim>\<open>imp2matprec\<close>, line 43 to 54: the state of \<open>t2\<close> and the exception, if any.\<close>

definition imp2_row_a :: "arith \<Rightarrow> nat \<Rightarrow> mat \<Rightarrow> mat \<Rightarrow> mat \<Rightarrow> error + mat" where
  "imp2_row_a A i d kest t2 =
     (let im = find_nonfinite (d ! i)
      in bind_e (submat kest im im) (\<lambda>k_mm.
         bind_e (a_inv A k_mm) (\<lambda>k_inv.
           submat_update (a_add A) t2 im im k_inv)))"

fun imp2_loop_a :: "arith \<Rightarrow> nat list \<Rightarrow> mat \<Rightarrow> mat \<Rightarrow> mat \<Rightarrow> error option \<times> mat" where
  "imp2_loop_a A [] d kest t2 = (None, t2)"
| "imp2_loop_a A (i # is) d kest t2 =
     (case imp2_row_a A i d kest t2 of
        Inl e \<Rightarrow> (Some e, t2)
      | Inr t2' \<Rightarrow> imp2_loop_a A is d kest t2')"

definition imp2matprec_a :: "arith \<Rightarrow> mat \<Rightarrow> mat \<Rightarrow> mat \<Rightarrow> error option \<times> mat" where
  "imp2matprec_a A D kest t2 = imp2_loop_a A [0..<n_rows D] D kest t2"

text \<open>
  \<^verbatim>\<open>EMcycleprec\<close>, line 58 to 90. \<open>S_new_a\<close> is the matrix of line 81,
  \<^verbatim>\<open>t2/N - newmu*newmu.t()\<close> with \<^verbatim>\<open>newmu = t1/N\<close>.
\<close>

definition S_new_a :: "arith \<Rightarrow> vec \<Rightarrow> mat \<Rightarrow> nat \<Rightarrow> mat" where
  "S_new_a A t1 t2 N =
     msub_a A (mdiv_a A t2 (Fin (real N)))
       (outer_a A (vdiv_a A t1 (Fin (real N))) (vdiv_a A t1 (Fin (real N))))"

definition EMcycleprec_a :: "arith \<Rightarrow> mat \<Rightarrow> vec \<Rightarrow> mat \<Rightarrow> error + (vec \<times> mat \<times> mat)" where
  "EMcycleprec_a A D muest kest =
     bind_e (imp1matprec_a A D muest kest) (\<lambda>dimp.
       let N = n_rows dimp;
           t1 = mv_a A (trans_m dimp) (ones N);
           t2 = mm_a A (trans_m dimp) dimp
       in (case imp2matprec_a A D kest t2 of
             (Some e, _) \<Rightarrow> Inl e
           | (None, t2') \<Rightarrow>
               let newmu = vdiv_a A t1 (Fin (real N));
                   newS = S_new_a A t1 t2' N
               in bind_e (a_inv A newS) (\<lambda>newK. Inr (newmu, newS, newK))))"

text \<open>
  \<^verbatim>\<open>nllprec\<close>, line 94 to 109. \<open>nll_term_a\<close> is the value that line 105 adds to
  \<open>nll\<close> for one row.
\<close>

definition log_2pi_a :: "arith \<Rightarrow> dbl" where
  "log_2pi_a A = a_log A (a_mul A (Fin 2) (a_pi A))"

definition nll_term_a :: "arith \<Rightarrow> nat \<Rightarrow> mat \<Rightarrow> vec \<Rightarrow> mat \<Rightarrow> error + dbl" where
  "nll_term_a A i d muest kinv =
     (let io = find_finite (d ! i);
          idx = [i]
      in bind_e (submat kinv io io) (\<lambda>s_oo.
         bind_e (submat d idx io) (\<lambda>x_o.
         bind_e (elem muest io) (\<lambda>mu_o.
         bind_e (a_inv_p A s_oo) (\<lambda>s_inv.
           let v = vsub_a A (colvec_of x_o) mu_o
           in Inr (a_mul A (Fin (1 / 2))
                (a_add A (a_add A (a_log A (a_det A s_oo)) (dot_a A (vm_a A v s_inv) v))
                   (a_mul A (Fin (real (length io))) (log_2pi_a A)))))))))"

definition nll_row_a :: "arith \<Rightarrow> nat \<Rightarrow> mat \<Rightarrow> vec \<Rightarrow> mat \<Rightarrow> dbl \<Rightarrow> error + dbl" where
  "nll_row_a A i d muest kinv nll =
     bind_e (nll_term_a A i d muest kinv) (\<lambda>t. Inr (a_add A nll t))"

fun nll_loop_a :: "arith \<Rightarrow> nat list \<Rightarrow> mat \<Rightarrow> vec \<Rightarrow> mat \<Rightarrow> dbl \<Rightarrow> error + dbl" where
  "nll_loop_a A [] d muest kinv nll = Inr nll"
| "nll_loop_a A (i # is) d muest kinv nll =
     (case nll_row_a A i d muest kinv nll of
        Inl e \<Rightarrow> Inl e
      | Inr nll' \<Rightarrow> nll_loop_a A is d muest kinv nll')"

definition nllprec_a :: "arith \<Rightarrow> mat \<Rightarrow> vec \<Rightarrow> mat \<Rightarrow> error + dbl" where
  "nllprec_a A d muest kest =
     bind_e (a_inv A kest) (\<lambda>kinv. nll_loop_a A [0..<n_rows d] d muest kinv (Fin 0))"

text \<open>
  The exact arithmetic of the sections above is one arithmetic among these.
\<close>

definition exact_arith :: arith where
  "exact_arith =
     \<lparr>a_add = dadd, a_sub = dsub, a_mul = dmul, a_div = ddiv, a_log = log_d, a_pi = Fin pi,
      a_det = det, a_inv = inv_m, a_inv_p = inv_m\<rparr>"

text \<open>
  What the statements below need of the library: on a square matrix, each of the two
  forms of \<^verbatim>\<open>inv\<close> returns a matrix of the same shape or raises
  \<^verbatim>\<open>std::runtime_error\<close>. When it raises is left open.
\<close>

definition inv_ok :: "(mat \<Rightarrow> error + mat) \<Rightarrow> bool" where
  "inv_ok f = (\<forall>M n. is_mat M n n \<longrightarrow>
                 (case f M of Inl e \<Rightarrow> e = runtime_error | Inr X \<Rightarrow> is_mat X n n))"

definition lib_ok :: "arith \<Rightarrow> bool" where
  "lib_ok A = (inv_ok (a_inv A) \<and> inv_ok (a_inv_p A))"

text \<open>
  \<open>block K ixs\<close> is \<^verbatim>\<open>K.submat(ixs, ixs)\<close> for indices in range. \<open>raises f K ixs\<close>:
  the routine \<open>f\<close> raises on that block.
\<close>

definition block :: "mat \<Rightarrow> nat list \<Rightarrow> mat" where
  "block K ixs = map (\<lambda>r. map (\<lambda>c. K ! r ! c) ixs) ixs"

definition raises :: "(mat \<Rightarrow> error + mat) \<Rightarrow> mat \<Rightarrow> nat list \<Rightarrow> bool" where
  "raises f K ixs = (f (block K ixs) = Inl runtime_error)"

text \<open>
  \<open>rejects_mm f D K\<close>: \<open>f\<close> raises on the block \<open>K\<^sub>m\<^sub>m\<close> of some row of \<open>D\<close>;
  \<open>rejects_oo f D S\<close>: \<open>f\<close> raises on the block \<open>S\<^sub>o\<^sub>o\<close> of some row of \<open>D\<close>.
\<close>

definition rejects_mm :: "(mat \<Rightarrow> error + mat) \<Rightarrow> mat \<Rightarrow> mat \<Rightarrow> bool" where
  "rejects_mm f D K = list_ex (\<lambda>x. raises f K (find_nonfinite x)) D"

definition rejects_oo :: "(mat \<Rightarrow> error + mat) \<Rightarrow> mat \<Rightarrow> mat \<Rightarrow> bool" where
  "rejects_oo f D S = list_ex (\<lambda>x. raises f S (find_finite x)) D"

text \<open>
  The sum of \<^verbatim>\<open>nllprec\<close> on \<open>D1\<close> and \<^verbatim>\<open>nllprec\<close> on \<open>D2\<close>, as a caller computes it from
  the two results.
\<close>

definition nll_parts_a :: "arith \<Rightarrow> mat \<Rightarrow> mat \<Rightarrow> vec \<Rightarrow> mat \<Rightarrow> error + dbl" where
  "nll_parts_a A D1 D2 muest kest =
     bind_e (nllprec_a A D1 muest kest) (\<lambda>a.
     bind_e (nllprec_a A D2 muest kest) (\<lambda>b. Inr (a_add A a b)))"

text \<open>
  \<open>exact_add A\<close>: the addition of \<open>A\<close> is associative and commutative and leaves a
  number unchanged when \<open>0\<close> is added. Exact addition is; the addition of doubles is
  not associative.
\<close>

definition exact_add :: "arith \<Rightarrow> bool" where
  "exact_add A =
     ((\<forall>a b c. a_add A (a_add A a b) c = a_add A a (a_add A b c)) \<and>
      (\<forall>a b. a_add A a b = a_add A b a) \<and>
      (\<forall>a. a_add A (Fin 0) a = a))"

subsection \<open>Binary64\<close>

text \<open>
  The arithmetic of the machine is IEEE 754 binary64 with rounding to nearest, ties to
  even. \<open>round_even\<close> rounds a real number to an integer in that way. A real number
  \<open>x \<noteq> 0\<close> lies in the binade of exponent \<open>expo x\<close>, not below the least exponent
  \<open>-1022\<close> of a normal double; the doubles of that binade are the multiples of
  \<open>2\<^bsup>expo x - 52\<^esup>\<close>. \<open>rnd x\<close> is the double nearest to \<open>x\<close>, and an infinity when that
  is beyond the largest double. The sign of zero is not modelled.
\<close>

definition round_even :: "real \<Rightarrow> int" where
  "round_even x =
     (let n = \<lfloor>x\<rfloor>; f = x - of_int n
      in if f < 1 / 2 then n else if 1 / 2 < f then n + 1 else if even n then n else n + 1)"

definition expo :: "real \<Rightarrow> int" where
  "expo x = max \<lfloor>log 2 \<bar>x\<bar>\<rfloor> (- 1022)"

definition rnd :: "real \<Rightarrow> dbl" where
  "rnd x =
     (if x = 0 then Fin 0
      else let u = 2 powr of_int (expo x - 52);
               y = of_int (round_even (x / u)) * u
           in if 2 ^ 1024 \<le> \<bar>y\<bar> then (if 0 < x then PInf else NInf) else Fin y)"

fun rd :: "dbl \<Rightarrow> dbl" where
  "rd (Fin x) = rnd x"
| "rd PInf = PInf"
| "rd NInf = NInf"
| "rd NaN = NaN"

text \<open>
  The four operations of IEEE 754 are correctly rounded: the result is the exact result,
  rounded. \<^verbatim>\<open>arma::datum::pi\<close> is the double nearest to \<open>\<pi>\<close>,
  \<open>884279719003555 / 2\<^bsup>48\<^esup>\<close>. For \<^verbatim>\<open>log\<close>, \<^verbatim>\<open>det\<close> and \<^verbatim>\<open>inv\<close> the best that a library can
  do is taken: the exact value, rounded, and an exception of \<^verbatim>\<open>inv\<close> on the singular
  matrices. On a matrix with one row and one column this is what Armadillo computes:
  the determinant of \<open>[[a]]\<close> is \<open>a\<close>, and its inverse is \<open>[[1 / a]]\<close> unless \<open>a = 0\<close>.
\<close>

definition rd_inv :: "mat \<Rightarrow> error + mat" where
  "rd_inv M = (case inv_m M of Inl e \<Rightarrow> Inl e | Inr X \<Rightarrow> Inr (map (map rd) X))"

definition binary64 :: arith where
  "binary64 =
     \<lparr>a_add = (\<lambda>a b. rd (dadd a b)), a_sub = (\<lambda>a b. rd (dsub a b)),
      a_mul = (\<lambda>a b. rd (dmul a b)), a_div = (\<lambda>a b. rd (ddiv a b)),
      a_log = (\<lambda>a. rd (log_d a)), a_pi = Fin (884279719003555 / 2 ^ 48),
      a_det = (\<lambda>M. rd (det M)), a_inv = rd_inv, a_inv_p = rd_inv\<rparr>"

section \<open>Auxiliary facts\<close>

text \<open>
  The model of \<^verbatim>\<open>det\<close> and \<^verbatim>\<open>inv\<close> on matrices of finite entries with one and two rows.
\<close>

lemma det_1x1: "det [[Fin a]] = Fin a"
  by (simp add: dsum_def sign_d_def)

lemma inv_m_1x1:
  "inv_m [[Fin a]] = (if a = 0 then Inl runtime_error else Inr [[Fin (1 / a)]])"
  by (simp add: inv_m_def is_square_def dsum_def sign_d_def cofactor_def minor_m_def del_nth_def)

lemma det_2x2: "det [[Fin a, Fin b], [Fin c, Fin d]] = Fin (a * d - b * c)"
  by (simp add: dsum_def sign_d_def del_nth_def)

lemma inv_m_2x2:
  assumes "a * d - b * c \<noteq> 0"
  shows "inv_m [[Fin a, Fin b], [Fin c, Fin d]] =
         Inr [[Fin (d / (a * d - b * c)), Fin (- b / (a * d - b * c))],
              [Fin (- c / (a * d - b * c)), Fin (a / (a * d - b * c))]]"
  using assms
  by (simp add: inv_m_def is_square_def dsum_def sign_d_def cofactor_def minor_m_def del_nth_def)

lemma bind_e_Inl [simp]: "bind_e (Inl e) f = Inl e"
  by (simp add: bind_e_def)

lemma bind_e_Inr [simp]: "bind_e (Inr x) f = f x"
  by (simp add: bind_e_def)

lemma bind_e_eq_Inr: "bind_e m f = Inr y \<longleftrightarrow> (\<exists>x. m = Inr x \<and> f x = Inr y)"
  by (cases m) simp_all

lemma set_find_finite: "set (find_finite r) = {j. j < length r \<and> is_finite (r ! j)}"
  by (auto simp: find_finite_def)

lemma set_find_nonfinite: "set (find_nonfinite r) = {j. j < length r \<and> \<not> is_finite (r ! j)}"
  by (auto simp: find_nonfinite_def)

lemma distinct_find_finite: "distinct (find_finite r)"
  by (simp add: find_finite_def sorted_wrt_filter)

lemma distinct_find_nonfinite: "distinct (find_nonfinite r)"
  by (simp add: find_nonfinite_def sorted_wrt_filter)

lemma sorted_find_finite: "sorted (find_finite r)"
  by (simp add: find_finite_def sorted_wrt_filter)

lemma sorted_find_nonfinite: "sorted (find_nonfinite r)"
  by (simp add: find_nonfinite_def sorted_wrt_filter)

lemma elem_eq_Inr:
  "elem v ixs = Inr w \<longleftrightarrow> (\<forall>i\<in>set ixs. i < length v) \<and> w = map (\<lambda>i. v ! i) ixs"
  by (auto simp: elem_def list_all_iff)

lemma elem_eq_Inl:
  "elem v ixs = Inl e \<longleftrightarrow> (\<exists>i\<in>set ixs. length v \<le> i) \<and> e = out_of_range"
  by (auto simp: elem_def list_all_iff not_less)

lemma submat_eq_Inr:
  "submat M ri ci = Inr X \<longleftrightarrow>
     (\<forall>r\<in>set ri. r < n_rows M) \<and> (\<forall>c\<in>set ci. c < n_cols M) \<and>
     X = map (\<lambda>r. map (\<lambda>c. M ! r ! c) ci) ri"
  by (auto simp: submat_def list_all_iff)


lemma upd_cols_Nil [simp]: "upd_cols f row [] xs = row"
  by (simp add: upd_cols_def)

lemma upd_cols_Nil2 [simp]: "upd_cols f row ci [] = row"
  by (simp add: upd_cols_def)

lemma upd_cols_Cons [simp]:
  "upd_cols f row (c # ci) (x # xs) = upd_cols f (row[c := f (row ! c) x]) ci xs"
  by (simp add: upd_cols_def)

lemma length_upd_cols [simp]: "length (upd_cols f row ci xs) = length row"
proof (induction ci arbitrary: xs row)
  case Nil
  then show ?case by simp
next
  case (Cons a ci)
  then show ?case by (cases xs) auto
qed

lemma upd_cols_other: "c \<notin> set ci \<Longrightarrow> upd_cols f row ci xs ! c = row ! c"
proof (induction ci arbitrary: xs row)
  case Nil
  then show ?case by simp
next
  case (Cons a ci)
  then show ?case by (cases xs) auto
qed

lemma upd_cols_at:
  "distinct ci \<Longrightarrow> b < length ci \<Longrightarrow> b < length xs \<Longrightarrow> ci ! b < length row \<Longrightarrow>
   upd_cols f row ci xs ! (ci ! b) = f (row ! (ci ! b)) (xs ! b)"
proof (induction ci arbitrary: xs row b)
  case Nil
  then show ?case by simp
next
  case (Cons a ci)
  then obtain x xs' where xs: "xs = x # xs'" by (cases xs) auto
  show ?case
  proof (cases b)
    case 0
    with Cons.prems xs show ?thesis by (simp add: upd_cols_other)
  next
    case (Suc b')
    with Cons.prems xs have "a \<noteq> ci ! b'" by auto
    with Cons.prems xs Suc Cons.IH [of b' xs' "row[a := f (row ! a) x]"] show ?thesis
      by simp
  qed
qed


lemma upd_rows_Nil [simp]: "upd_rows f M [] ci X = M"
  by (simp add: upd_rows_def)

lemma upd_rows_Nil2 [simp]: "upd_rows f M ri ci [] = M"
  by (simp add: upd_rows_def)

lemma upd_rows_Cons [simp]:
  "upd_rows f M (r # ri) ci (xs # X) = upd_rows f (M[r := upd_cols f (M ! r) ci xs]) ri ci X"
  by (simp add: upd_rows_def)

lemma length_upd_rows [simp]: "length (upd_rows f M ri ci X) = length M"
proof (induction ri arbitrary: X M)
  case Nil
  then show ?case by simp
next
  case (Cons a ri)
  then show ?case by (cases X) auto
qed

lemma upd_rows_other: "r \<notin> set ri \<Longrightarrow> upd_rows f M ri ci X ! r = M ! r"
proof (induction ri arbitrary: X M)
  case Nil
  then show ?case by simp
next
  case (Cons a ri)
  then show ?case by (cases X) auto
qed

lemma upd_rows_at:
  "distinct ri \<Longrightarrow> a < length ri \<Longrightarrow> a < length X \<Longrightarrow> ri ! a < length M \<Longrightarrow>
   upd_rows f M ri ci X ! (ri ! a) = upd_cols f (M ! (ri ! a)) ci (X ! a)"
proof (induction ri arbitrary: X M a)
  case Nil
  then show ?case by simp
next
  case (Cons r ri)
  then obtain xs X' where X: "X = xs # X'" by (cases X) auto
  show ?case
  proof (cases a)
    case 0
    with Cons.prems X show ?thesis by (simp add: upd_rows_other)
  next
    case (Suc a')
    with Cons.prems X have "r \<noteq> ri ! a'" by auto
    with Cons.prems X Suc Cons.IH [of a' X' "M[r := upd_cols f (M ! r) ci xs]"] show ?thesis
      by simp
  qed
qed

lemma submat_update_eq_Inr:
  "submat_update f M ri ci X = Inr M' \<longleftrightarrow>
     (\<forall>r\<in>set ri. r < n_rows M) \<and> (\<forall>c\<in>set ci. c < n_cols M) \<and>
     length X = length ri \<and> (\<forall>xs\<in>set X. length xs = length ci) \<and>
     M' = upd_rows f M ri ci X"
  by (auto simp: submat_update_def list_all_iff)

lemma length_vsub [simp]: "length (vsub u v) = min (length u) (length v)"
  by (simp add: vsub_def)

lemma length_mv [simp]: "length (mv A v) = length A"
  by (simp add: mv_def)

lemma length_mm [simp]: "length (mm A B) = length A"
  by (simp add: mm_def)

lemma inv_m_eq_Inr:
  "inv_m M = Inr X \<longleftrightarrow>
     is_square M \<and> det M \<noteq> Fin 0 \<and>
     X = map (\<lambda>i. map (\<lambda>j. ddiv (cofactor M j i) (det M)) [0..<length M]) [0..<length M]"
  by (auto simp: inv_m_def)

lemma length_inv_m: "inv_m M = Inr X \<Longrightarrow> length X = length M"
  by (auto simp: inv_m_eq_Inr)

lemma inv_m_rows: "inv_m M = Inr X \<Longrightarrow> xs \<in> set X \<Longrightarrow> length xs = length M"
  by (auto simp: inv_m_eq_Inr)

lemma imp1_row_Inr:
  assumes "imp1_row i d muest kest = Inr d'"
  shows "i < length d \<and>
         (\<exists>xhat. cond_mean (d ! i) muest kest = Inr xhat \<and>
                 length xhat = length (find_nonfinite (d ! i)) \<and>
                 d' = d[i := upd_cols (\<lambda>old new. new) (d ! i) (find_nonfinite (d ! i)) xhat])"
  using assms
  unfolding imp1_row_def cond_mean_def Let_def
  by (auto simp: bind_e_eq_Inr submat_update_eq_Inr submat_eq_Inr elem_eq_Inr rowmat_of_def
      colvec_of_def n_rows_def length_inv_m set_find_finite)


lemma is_mat_n_cols: "is_mat M n p \<Longrightarrow> 0 < n \<Longrightarrow> n_cols M = p"
  by (cases M) (auto simp: is_mat_def n_cols_def)

lemma is_mat_row: "is_mat M n p \<Longrightarrow> i < n \<Longrightarrow> length (M ! i) = p"
  by (auto simp: is_mat_def list_all_length)

lemma is_mat_length: "is_mat M n p \<Longrightarrow> length M = n"
  by (simp add: is_mat_def)

lemma is_mat_update:
  "is_mat M n p \<Longrightarrow> length r = p \<Longrightarrow> is_mat (M[i := r]) n p"
  by (auto simp: is_mat_def list_all_iff dest: set_update_subset_insert [THEN subsetD])

lemma bind_e_cong:
  "m = m' \<Longrightarrow> (\<And>x. m' = Inr x \<Longrightarrow> f x = g x) \<Longrightarrow> bind_e m f = bind_e m' g"
  by (cases m') simp_all

lemma bind_e_assoc: "bind_e (bind_e m f) g = bind_e m (\<lambda>x. bind_e (f x) g)"
  by (cases m) simp_all

lemma case_sum_bind_e:
  "(case m of Inl e \<Rightarrow> Inl e | Inr x \<Rightarrow> f x) = bind_e m f"
  by (simp add: bind_e_def)

lemma imp1_row_eq:
  assumes "i < length d" and "length (d ! i) \<le> n_cols d"
  shows "imp1_row i d muest kest =
         (case cond_mean (d ! i) muest kest of
            Inl e \<Rightarrow> Inl e
          | Inr xhat \<Rightarrow>
              Inr (d[i := upd_cols (\<lambda>old new. new) (d ! i) (find_nonfinite (d ! i)) xhat]))"
proof -
  let ?io = "find_finite (d ! i)" and ?im = "find_nonfinite (d ! i)"
  have io: "\<forall>c\<in>set ?io. c < n_cols d" and im: "\<forall>c\<in>set ?im. c < n_cols d"
    using assms by (auto simp: set_find_finite set_find_nonfinite)
  have x: "submat d [i] ?io = Inr [map (\<lambda>c. d ! i ! c) ?io]"
    using assms io by (simp add: submat_eq_Inr n_rows_def)
  have x': "elem (d ! i) ?io = Inr (map (\<lambda>c. d ! i ! c) ?io)"
    by (simp add: elem_eq_Inr set_find_finite)
  have upd: "\<And>v. length v = length ?im \<Longrightarrow>
      submat_update (\<lambda>old new. new) d [i] ?im (rowmat_of v)
      = Inr (d[i := upd_cols (\<lambda>old new. new) (d ! i) ?im v])"
    using assms im by (simp add: submat_update_eq_Inr n_rows_def rowmat_of_def)
  show ?thesis
    unfolding imp1_row_def cond_mean_def Let_def x x' case_sum_bind_e bind_e_assoc bind_e_Inr
    by (intro bind_e_cong refl)
       (auto simp: upd colvec_of_def elem_eq_Inr submat_eq_Inr dest!: length_inv_m)
qed

lemma imp1_loop_Inr:
  assumes "imp1_loop ixs d muest kest = Inr d'" and "distinct ixs"
  shows "length d' = length d \<and>
         (\<forall>r. r \<notin> set ixs \<longrightarrow> d' ! r = d ! r) \<and>
         (\<forall>i\<in>set ixs. i < length d \<and> (\<exists>xhat. cond_mean (d ! i) muest kest = Inr xhat \<and>
              length xhat = length (find_nonfinite (d ! i)) \<and>
              d' ! i = upd_cols (\<lambda>old new. new) (d ! i) (find_nonfinite (d ! i)) xhat))"
  using assms
proof (induction ixs arbitrary: d)
  case Nil
  then show ?case by simp
next
  case (Cons i ixs)
  from Cons.prems obtain d1 where r: "imp1_row i d muest kest = Inr d1"
    and l: "imp1_loop ixs d1 muest kest = Inr d'"
    by (auto split: sum.splits)
  from imp1_row_Inr [OF r] obtain xhat where i: "i < length d"
    and x: "cond_mean (d ! i) muest kest = Inr xhat"
    and lx: "length xhat = length (find_nonfinite (d ! i))"
    and d1: "d1 = d[i := upd_cols (\<lambda>old new. new) (d ! i) (find_nonfinite (d ! i)) xhat]"
    by blast
  from Cons.prems have dist: "distinct ixs" and ni: "i \<notin> set ixs" by auto
  note IH = Cons.IH [OF l dist]
  have same: "\<And>j. j \<noteq> i \<Longrightarrow> d1 ! j = d ! j" by (simp add: d1)
  have len: "length d1 = length d" by (simp add: d1)
  have "d' ! i = d1 ! i" using IH ni by blast
  with i have di: "d' ! i = upd_cols (\<lambda>old new. new) (d ! i) (find_nonfinite (d ! i)) xhat"
    by (simp add: d1)
  show ?case
  proof (intro conjI allI impI ballI)
    show "length d' = length d" using IH len by simp
  next
    fix r assume "r \<notin> set (i # ixs)"
    then show "d' ! r = d ! r" using IH same by auto
  next
    fix j assume j: "j \<in> set (i # ixs)"
    show "j < length d" using j i IH len by auto
    show "\<exists>xhat. cond_mean (d ! j) muest kest = Inr xhat \<and>
              length xhat = length (find_nonfinite (d ! j)) \<and>
              d' ! j = upd_cols (\<lambda>old new. new) (d ! j) (find_nonfinite (d ! j)) xhat"
    proof (cases "j = i")
      case True
      with x lx di show ?thesis by blast
    next
      case False
      with j have "j \<in> set ixs" by simp
      with IH False same [of j] show ?thesis by auto
    qed
  qed
qed






section \<open>Claims about \<^verbatim>\<open>imp1matprec\<close>\<close>

text \<open>
  Claim C1. When \<^verbatim>\<open>imp1matprec\<close> returns, the result has the rows of \<open>D\<close>, and in
  every row \<open>i\<close> the conditional mean \<open>cond_mean (D ! i) muest kest\<close> of the
  specification is defined, the \<open>k\<close>-th missing cell of the row holds its \<open>k\<close>-th
  entry, and the observed cells are the ones of \<open>D\<close>. This holds for every row, so in
  particular for the rows with both missing and observed cells. Lemma
  \<open>imp1matprec_returns\<close> says when the function returns.
\<close>

theorem imp1matprec_conditional_mean:
  assumes "imp1matprec D muest kest = Inr D'" and "i < n_rows D"
  shows "n_rows D' = n_rows D \<and>
         (\<exists>xhat. cond_mean (D ! i) muest kest = Inr xhat \<and>
           length (D' ! i) = length (D ! i) \<and>
           (\<forall>k<length (find_nonfinite (D ! i)).
               D' ! i ! (find_nonfinite (D ! i) ! k) = xhat ! k) \<and>
           (\<forall>j\<in>set (find_finite (D ! i)). D' ! i ! j = D ! i ! j))"
proof -
  let ?im = "find_nonfinite (D ! i)"
  from assms have l: "imp1_loop [0..<length D] D muest kest = Inr D'" and i: "i \<in> set [0..<length D]"
    by (simp_all add: imp1matprec_def n_rows_def)
  have dist: "distinct [0..<length D]" by simp
  note L = imp1_loop_Inr [OF l dist]
  from L have len: "length D' = length D" by blast
  from L i have "\<exists>xhat. cond_mean (D ! i) muest kest = Inr xhat \<and>
              length xhat = length ?im \<and>
              D' ! i = upd_cols (\<lambda>old new. new) (D ! i) ?im xhat"
    by blast
  then obtain xhat where x: "cond_mean (D ! i) muest kest = Inr xhat"
    and lx: "length xhat = length ?im"
    and row: "D' ! i = upd_cols (\<lambda>old new. new) (D ! i) ?im xhat"
    by blast
  have a: "D' ! i ! (?im ! k) = xhat ! k" if "k < length ?im" for k
  proof -
    from that have "?im ! k \<in> set ?im" by simp
    then have "?im ! k < length (D ! i)" by (simp add: set_find_nonfinite)
    with that lx show ?thesis
      by (simp add: row upd_cols_at distinct_find_nonfinite)
  qed
  have b: "D' ! i ! j = D ! i ! j" if "j \<in> set (find_finite (D ! i))" for j
  proof -
    from that have "j \<notin> set ?im" by (simp add: set_find_finite set_find_nonfinite)
    then show ?thesis by (simp add: row upd_cols_other)
  qed
  have c: "length (D' ! i) = length (D ! i)" by (simp add: row)
  from len x a b c show ?thesis unfolding n_rows_def by blast
qed

theorem imp1matprec_conditional_mean_witness:
  "imp1matprec [[NaN, Fin 1]] [Fin 0, Fin 0] [[Fin 2, Fin 1], [Fin 1, Fin 2]]
     = Inr [[Fin (- 1 / 2), Fin 1]] \<and>
   find_nonfinite [NaN, Fin 1] = [0] \<and> find_finite [NaN, Fin 1] = [1] \<and>
   (\<exists>xhat. cond_mean [NaN, Fin 1] [Fin 0, Fin 0] [[Fin 2, Fin 1], [Fin 1, Fin 2]] = Inr xhat \<and>
      xhat ! 0 = Fin (- 1 / 2))"
proof -
  have h1: "imp1matprec [[NaN, Fin 1]] [Fin 0, Fin 0] [[Fin 2, Fin 1], [Fin 1, Fin 2]]
     = Inr [[Fin (- 1 / 2), Fin 1]]"
    by code_simp
  have h2: "0 < n_rows [[NaN, Fin 1]]"
    by code_simp
  have m: "find_nonfinite [NaN, Fin 1] = [0]" and f: "find_finite [NaN, Fin 1] = [1]"
    by code_simp code_simp
  from imp1matprec_conditional_mean [OF h1 h2] obtain xhat
    where x: "cond_mean ([[NaN, Fin 1]] ! 0) [Fin 0, Fin 0] [[Fin 2, Fin 1], [Fin 1, Fin 2]] = Inr xhat"
      and k: "\<forall>k<length (find_nonfinite ([[NaN, Fin 1]] ! 0)).
                [[Fin (- 1 / 2), Fin 1]] ! 0 ! (find_nonfinite ([[NaN, Fin 1]] ! 0) ! k) = xhat ! k"
    by blast
  from k [rule_format, of 0] m have "xhat ! 0 = Fin (- 1 / 2)" by simp
  with x h1 m f show ?thesis by simp
qed

lemma dsub_zero [simp]: "dsub a (Fin 0) = a"
  by (cases a) (simp_all add: dsub_def)

lemma dsum_Nil [simp]: "dsum [] = Fin 0"
  by (simp add: dsum_def)

lemma dot_Nil2 [simp]: "dot u [] = Fin 0"
  by (simp add: dot_def)

lemma dot_Nil [simp]: "dot [] v = Fin 0"
  by (simp add: dot_def)

lemma n_cols_map_Nil [simp]: "n_cols (map (\<lambda>r. []) xs) = 0"
  by (cases xs) (simp_all add: n_cols_def)

lemma mm_no_cols [simp]: "mm A (map (\<lambda>r. []) xs) = map (\<lambda>r. []) A"
  by (simp add: mm_def vm_def trans_m_def)

lemma mv_no_cols [simp]: "mv (map (\<lambda>r. []) A) v = replicate (length A) (Fin 0)"
  by (simp add: mv_def map_replicate_const)







lemma is_mat_n_cols_le: "is_mat M n p \<Longrightarrow> i < n \<Longrightarrow> p \<le> n_cols M"
  by (simp add: is_mat_n_cols)



lemma pos_less: "r \<in> set ixs \<Longrightarrow> pos ixs r < length ixs"
  by (induction ixs) auto

lemma nth_pos: "r \<in> set ixs \<Longrightarrow> ixs ! pos ixs r = r"
  by (induction ixs) auto

lemma upd_cols_closed:
  assumes "distinct ci" and "\<forall>c\<in>set ci. c < length row" and "length xs = length ci"
  shows "upd_cols f row ci xs =
         map (\<lambda>c. if c \<in> set ci then f (row ! c) (xs ! pos ci c) else row ! c) [0..<length row]"
proof (rule nth_equalityI)
  show "length (upd_cols f row ci xs) = length (map (\<lambda>c. if c \<in> set ci then f (row ! c) (xs ! pos ci c) else row ! c) [0..<length row])"
    by simp
next
  fix c assume "c < length (upd_cols f row ci xs)"
  then have c: "c < length row" by simp
  show "upd_cols f row ci xs ! c =
        map (\<lambda>c. if c \<in> set ci then f (row ! c) (xs ! pos ci c) else row ! c) [0..<length row] ! c"
  proof (cases "c \<in> set ci")
    case True
    then have p: "pos ci c < length ci" and n: "ci ! pos ci c = c"
      by (simp_all add: pos_less nth_pos)
    from assms p n c
    have "upd_cols f row ci xs ! (ci ! pos ci c) = f (row ! (ci ! pos ci c)) (xs ! pos ci c)"
      by (intro upd_cols_at) simp_all
    with n c True show ?thesis by simp
  next
    case False
    with c show ?thesis by (simp add: upd_cols_other)
  qed
qed

lemma upd_rows_closed:
  assumes "distinct ri" and "\<forall>r\<in>set ri. r < length M" and "length X = length ri"
  shows "upd_rows f M ri ci X =
         map (\<lambda>r. if r \<in> set ri then upd_cols f (M ! r) ci (X ! pos ri r) else M ! r) [0..<length M]"
proof (rule nth_equalityI)
  show "length (upd_rows f M ri ci X) = length (map (\<lambda>r. if r \<in> set ri then upd_cols f (M ! r) ci (X ! pos ri r) else M ! r) [0..<length M])"
    by simp
next
  fix r assume "r < length (upd_rows f M ri ci X)"
  then have r: "r < length M" by simp
  show "upd_rows f M ri ci X ! r =
        map (\<lambda>r. if r \<in> set ri then upd_cols f (M ! r) ci (X ! pos ri r) else M ! r) [0..<length M] ! r"
  proof (cases "r \<in> set ri")
    case True
    then have p: "pos ri r < length ri" and n: "ri ! pos ri r = r"
      by (simp_all add: pos_less nth_pos)
    from assms p n r
    have "upd_rows f M ri ci X ! (ri ! pos ri r) = upd_cols f (M ! (ri ! pos ri r)) ci (X ! pos ri r)"
      by (intro upd_rows_at) simp_all
    with n r True show ?thesis by simp
  next
    case False
    with r show ?thesis by (simp add: upd_rows_other)
  qed
qed

lemma upd_rows_add_block:
  assumes "distinct ixs" and "\<forall>r\<in>set ixs. r < length T"
    and "\<forall>r\<in>set ixs. \<forall>c\<in>set ixs. c < length (T ! r)"
    and "length X = length ixs" and "\<forall>xs\<in>set X. length xs = length ixs"
  shows "upd_rows dadd T ixs ixs X = add_block T ixs X"
proof -
  have "(if r \<in> set ixs then upd_cols dadd (T ! r) ixs (X ! pos ixs r) else T ! r) =
        map (\<lambda>c. if r \<in> set ixs \<and> c \<in> set ixs
                         then dadd (T ! r ! c) (X ! pos ixs r ! pos ixs c)
                         else T ! r ! c) [0..<length (T ! r)]" for r
  proof (cases "r \<in> set ixs")
    case True
    then have "pos ixs r < length X" using assms(4) by (simp add: pos_less)
    then have "length (X ! pos ixs r) = length ixs" using assms(5) by simp
    with True assms(1,3) show ?thesis
      by (simp add: upd_cols_closed)
  next
    case False
    then show ?thesis by (simp add: map_nth)
  qed
  then show ?thesis
    unfolding add_block_def by (simp add: upd_rows_closed [OF assms(1,2,4)])
qed

section \<open>Claims about \<^verbatim>\<open>imp2matprec\<close>\<close>

lemma inv_block_shape:
  assumes "inv_block K ixs = Inr X"
  shows "length X = length ixs" and "\<forall>xs\<in>set X. length xs = length ixs"
  using assms by (auto simp: inv_block_def bind_e_eq_Inr submat_eq_Inr inv_m_eq_Inr)

lemma inv_block_Nil [simp]: "inv_block K [] = Inr []"
  by (simp add: inv_block_def submat_def inv_m_def is_square_def)

lemma add_block_Nil [simp]: "add_block T [] X = T"
  by (simp add: add_block_def map_nth)

lemma is_mat_add_block: "is_mat T n p \<Longrightarrow> is_mat (add_block T ixs X) n p"
  by (auto simp: is_mat_def add_block_def list_all_iff)

lemma add_block_nth:
  "r < length T \<Longrightarrow> c < length (T ! r) \<Longrightarrow>
   add_block T ixs X ! r ! c =
     (if r \<in> set ixs \<and> c \<in> set ixs then dadd (T ! r ! c) (X ! pos ixs r ! pos ixs c)
      else T ! r ! c)"
  by (simp add: add_block_def)

lemma imp2_row_eq:
  assumes "is_mat t2 P P" and "length (d ! i) \<le> P"
  shows "imp2_row i d kest t2 =
         bind_e (inv_block kest (find_nonfinite (d ! i)))
           (\<lambda>X. Inr (add_block t2 (find_nonfinite (d ! i)) X))"
proof -
  let ?im = "find_nonfinite (d ! i)"
  have b: "\<forall>r\<in>set ?im. r < P" using assms(2) by (auto simp: set_find_nonfinite)
  have u: "submat_update dadd t2 ?im ?im X = Inr (add_block t2 ?im X)"
    if X: "inv_block kest ?im = Inr X" for X
  proof -
    note sh = inv_block_shape [OF X]
    have r: "\<forall>r\<in>set ?im. r < length t2" using b assms(1) by (simp add: is_mat_length)
    have c: "\<forall>r\<in>set ?im. \<forall>c\<in>set ?im. c < length (t2 ! r)"
      using b assms(1) by (auto simp: is_mat_row)
    have nc: "\<forall>c\<in>set ?im. c < n_cols t2"
    proof
      fix c assume "c \<in> set ?im"
      with b have "c < P" by simp
      moreover from this assms(1) have "n_cols t2 = P" by (intro is_mat_n_cols) auto
      ultimately show "c < n_cols t2" by simp
    qed
    from upd_rows_add_block [OF distinct_find_nonfinite r c sh] r nc sh show ?thesis
      by (simp add: submat_update_eq_Inr n_rows_def)
  qed
  show ?thesis
    unfolding imp2_row_def Let_def inv_block_def bind_e_assoc
    by (intro bind_e_cong refl) (simp add: u inv_block_def)
qed


lemma inv_block_Inl_nonempty: "inv_block K ixs = Inl e \<Longrightarrow> ixs \<noteq> []"
  by auto

lemma imp2_loop_spec:
  assumes "is_mat t2 P P" and "\<forall>i\<in>set ixs. length (d ! i) \<le> P"
  shows "spec_correction (map (\<lambda>i. d ! i) ixs) kest t2 =
         (case imp2_loop ixs d kest t2 of
            (None, t2') \<Rightarrow> Inr t2'
          | (Some e, t2') \<Rightarrow> Inl e)"
  using assms
proof (induction ixs arbitrary: t2)
  case Nil
  then show ?case by simp
next
  case (Cons i ixs)
  let ?im = "find_nonfinite (d ! i)"
  from Cons.prems have li: "length (d ! i) \<le> P" and rest: "\<forall>j\<in>set ixs. length (d ! j) \<le> P"
    by auto
  note row = imp2_row_eq [OF Cons.prems(1) li, of kest]
  show ?case
  proof (cases "inv_block kest ?im")
    case (Inl e)
    then have "?im \<noteq> []" by (rule inv_block_Inl_nonempty)
    with Inl row show ?thesis by simp
  next
    case (Inr X)
    have m: "is_mat (add_block t2 ?im X) P P"
      using Cons.prems(1) by (rule is_mat_add_block)
    note IH = Cons.IH [OF m rest]
    show ?thesis
    proof (cases "?im = []")
      case True
      with Inr have "add_block t2 ?im X = t2" by simp
      with IH Inr row True show ?thesis by simp
    next
      case False
      with IH Inr row show ?thesis by simp
    qed
  qed
qed

lemma imp2_loop_fail_state:
  assumes "is_mat t2 P P" and "\<forall>i\<in>set ixs. length (d ! i) \<le> P"
    and "imp2_loop ixs d kest t2 = (Some e, t2')"
  shows "\<exists>k<length ixs. inv_block kest (find_nonfinite (d ! (ixs ! k))) = Inl e \<and>
           imp2_loop (take k ixs) d kest t2 = (None, t2')"
  using assms
proof (induction ixs arbitrary: t2)
  case Nil
  then show ?case by simp
next
  case (Cons i ixs)
  let ?im = "find_nonfinite (d ! i)"
  from Cons.prems have li: "length (d ! i) \<le> P" and rest: "\<forall>j\<in>set ixs. length (d ! j) \<le> P"
    by auto
  note row = imp2_row_eq [OF Cons.prems(1) li, of kest]
  show ?case
  proof (cases "inv_block kest ?im")
    case (Inl e')
    with row Cons.prems(3) have "e' = e" and "t2' = t2" by simp_all
    with Inl have "inv_block kest (find_nonfinite (d ! ((i # ixs) ! 0))) = Inl e \<and>
           imp2_loop (take 0 (i # ixs)) d kest t2 = (None, t2')"
      by simp
    then show ?thesis by blast
  next
    case (Inr X)
    let ?t = "add_block t2 ?im X"
    have m: "is_mat ?t P P"
      using Cons.prems(1) by (rule is_mat_add_block)
    from Inr row Cons.prems(3) have "imp2_loop ixs d kest ?t = (Some e, t2')" by simp
    from Cons.IH [OF m rest this] obtain k where k: "k < length ixs"
      and f: "inv_block kest (find_nonfinite (d ! (ixs ! k))) = Inl e"
      and p: "imp2_loop (take k ixs) d kest ?t = (None, t2')"
      by blast
    from k f p Inr row
    have "Suc k < length (i # ixs) \<and>
          inv_block kest (find_nonfinite (d ! ((i # ixs) ! Suc k))) = Inl e \<and>
          imp2_loop (take (Suc k) (i # ixs)) d kest t2 = (None, t2')"
      by simp
    then show ?thesis by blast
  qed
qed

lemma length_add_block [simp]: "length (add_block T ixs X) = length T"
  by (simp add: add_block_def)

lemma length_add_block_row [simp]:
  "r < length T \<Longrightarrow> length (add_block T ixs X ! r) = length (T ! r)"
  by (simp add: add_block_def)

lemma correction_terms_Cons:
  "correction_terms K r c (x # xs) = correction_term K r c x @ correction_terms K r c xs"
  by (simp add: correction_terms_def)

lemma correction_terms_Nil [simp]: "correction_terms K r c [] = []"
  by (simp add: correction_terms_def)

lemma spec_correction_cell:
  assumes "spec_correction xs K T = Inr T'" and "r < length T" and "c < length (T ! r)"
  shows "length T' = length T \<and> length (T' ! r) = length (T ! r) \<and>
         T' ! r ! c = foldl dadd (T ! r ! c) (correction_terms K r c xs)"
  using assms
proof (induction xs arbitrary: T)
  case Nil
  then show ?case by simp
next
  case (Cons x xs)
  let ?im = "find_nonfinite x"
  show ?case
  proof (cases "?im = []")
    case True
    then have "correction_term K r c x = []" by (simp add: correction_term_def)
    with True Cons show ?thesis by (simp add: correction_terms_Cons)
  next
    case False
    with Cons.prems(1) obtain X where X: "inv_block K ?im = Inr X"
      and s: "spec_correction xs K (add_block T ?im X) = Inr T'"
      by (auto simp: bind_e_eq_Inr)
    let ?T1 = "add_block T ?im X"
    from Cons.prems have r1: "r < length ?T1" and c1: "c < length (?T1 ! r)" by simp_all
    note IH = Cons.IH [OF s r1 c1]
    have "foldl dadd (T ! r ! c) (correction_term K r c x) = ?T1 ! r ! c"
      using Cons.prems(2,3) X by (simp add: correction_term_def add_block_nth Let_def)
    with IH Cons.prems show ?thesis
      by (simp add: correction_terms_Cons)
  qed
qed


lemma spec_correction_is_mat:
  "spec_correction xs K T = Inr T' \<Longrightarrow> is_mat T n p \<Longrightarrow> is_mat T' n p"
proof (induction xs arbitrary: T)
  case Nil
  then show ?case by simp
next
  case (Cons x xs)
  show ?case
  proof (cases "find_nonfinite x = []")
    case True
    with Cons show ?thesis by simp
  next
    case False
    with Cons.prems(1) obtain X where
      "spec_correction xs K (add_block T (find_nonfinite x) X) = Inr T'"
      by (auto simp: bind_e_eq_Inr)
    with Cons.IH Cons.prems(2) show ?thesis
      by (blast intro: is_mat_add_block)
  qed
qed

lemma correction_terms_none:
  "\<forall>x\<in>set xs. \<not> (r \<in> set (find_nonfinite x) \<and> c \<in> set (find_nonfinite x)) \<Longrightarrow>
   correction_terms K r c xs = []"
  by (induction xs) (auto simp: correction_terms_Cons correction_term_def Let_def)

lemma imp2_row_no_missing:
  "find_nonfinite (d ! i) = [] \<Longrightarrow> imp2_row i d kest T = Inr T"
  by (simp add: imp2_row_def submat_def inv_m_def is_square_def submat_update_def)

lemma imp2matprec_spec:
  assumes "is_mat D N P" and "is_mat t2 P P"
  shows "spec_correction D kest t2 =
         (case imp2matprec D kest t2 of (None, t2') \<Rightarrow> Inr t2' | (Some e, t2') \<Rightarrow> Inl e)"
proof -
  have "\<forall>i\<in>set [0..<length D]. length (D ! i) \<le> P"
    using assms(1) by (simp add: is_mat_def list_all_length)
  from imp2_loop_spec [OF assms(2) this, of kest] show ?thesis
    by (simp add: imp2matprec_def n_rows_def map_nth)
qed

text \<open>
  Claim C3. Let \<open>D\<close> be \<open>N \<times> P\<close> and \<open>t2\<close> be \<open>P \<times> P\<close>, and let \<^verbatim>\<open>imp2matprec\<close> end
  without an exception, leaving \<open>t2'\<close>. Then \<open>t2'\<close> is the correction of the
  specification applied to \<open>t2\<close>; it is \<open>P \<times> P\<close>; its cell \<open>(r, c)\<close> is the cell of \<open>t2\<close>
  plus, for each row of \<open>D\<close> in which \<open>r\<close> and \<open>c\<close> are both missing, the entry of
  \<open>K\<^sub>m\<^sub>m\<inverse>\<close> at their places; a cell that no row touches is unchanged; and the step of a
  row without missing cells leaves the accumulator as it is.
\<close>

theorem imp2matprec_correction:
  assumes "is_mat D N P" and "is_mat t2 P P" and "imp2matprec D kest t2 = (None, t2')"
  shows "spec_correction D kest t2 = Inr t2' \<and> is_mat t2' P P \<and>
         (\<forall>r<P. \<forall>c<P. t2' ! r ! c = foldl dadd (t2 ! r ! c) (correction_terms kest r c D)) \<and>
         (\<forall>r<P. \<forall>c<P.
            (\<forall>i<N. \<not> (r \<in> set (find_nonfinite (D ! i)) \<and> c \<in> set (find_nonfinite (D ! i))))
            \<longrightarrow> t2' ! r ! c = t2 ! r ! c) \<and>
         (\<forall>i T. find_nonfinite (D ! i) = [] \<longrightarrow> imp2_row i D kest T = Inr T)"
proof -
  from imp2matprec_spec [OF assms(1,2), of kest] assms(3)
  have s: "spec_correction D kest t2 = Inr t2'" by simp
  then have m: "is_mat t2' P P" using assms(2) by (rule spec_correction_is_mat)
  have cell: "t2' ! r ! c = foldl dadd (t2 ! r ! c) (correction_terms kest r c D)"
    if "r < P" "c < P" for r c
  proof -
    from that assms(2) have "r < length t2" "c < length (t2 ! r)"
      by (simp_all add: is_mat_length is_mat_row)
    with spec_correction_cell [OF s] show ?thesis by blast
  qed
  have frame: "t2' ! r ! c = t2 ! r ! c"
    if "r < P" "c < P"
      and "\<forall>i<N. \<not> (r \<in> set (find_nonfinite (D ! i)) \<and> c \<in> set (find_nonfinite (D ! i)))"
    for r c
  proof -
    have "\<forall>x\<in>set D. \<not> (r \<in> set (find_nonfinite x) \<and> c \<in> set (find_nonfinite x))"
    proof
      fix x assume "x \<in> set D"
      then obtain i where "i < length D" "x = D ! i" by (auto simp: in_set_conv_nth)
      with that(3) assms(1)
      show "\<not> (r \<in> set (find_nonfinite x) \<and> c \<in> set (find_nonfinite x))"
        by (simp add: is_mat_length)
    qed
    then have "correction_terms kest r c D = []" by (rule correction_terms_none)
    with cell [OF that(1,2)] show ?thesis by simp
  qed
  from s m cell frame show ?thesis
    by (simp add: imp2_row_no_missing)
qed

theorem imp2matprec_correction_witness:
  "imp2matprec [[NaN, Fin 1], [Fin 2, Fin 3]] [[Fin 2, Fin 1], [Fin 1, Fin 2]]
      [[Fin 0, Fin 0], [Fin 0, Fin 0]]
     = (None, [[Fin (1 / 2), Fin 0], [Fin 0, Fin 0]]) \<and>
   spec_correction [[NaN, Fin 1], [Fin 2, Fin 3]] [[Fin 2, Fin 1], [Fin 1, Fin 2]]
      [[Fin 0, Fin 0], [Fin 0, Fin 0]]
     = Inr [[Fin (1 / 2), Fin 0], [Fin 0, Fin 0]]"
proof -
  let ?D = "[[NaN, Fin 1], [Fin 2, Fin 3]]" and ?K = "[[Fin 2, Fin 1], [Fin 1, Fin 2]]"
  let ?T = "[[Fin 0, Fin 0], [Fin 0, Fin 0]]"
  have h1: "is_mat ?D 2 2" and h2: "is_mat ?T 2 2"
    by (simp_all add: is_mat_def)
  have h3: "imp2matprec ?D ?K ?T = (None, [[Fin (1 / 2), Fin 0], [Fin 0, Fin 0]])"
    by code_simp
  from imp2matprec_correction [OF h1 h2 h3] h3 show ?thesis
    by blast
qed

section \<open>Claims about \<^verbatim>\<open>nllprec\<close>\<close>

lemma dadd_assoc: "dadd (dadd a b) c = dadd a (dadd b c)"
  by (cases a; cases b; cases c) simp_all

lemma dadd_commute: "dadd a b = dadd b a"
  by (cases a; cases b) simp_all

lemma dadd_zero_left [simp]: "dadd (Fin 0) a = a"
  by (cases a) simp_all

lemma dadd_zero_right [simp]: "dadd a (Fin 0) = a"
  by (cases a) simp_all

lemma log_2pi_eq: "log_2pi = log_d (Fin (2 * pi))"
  by (simp add: log_2pi_def)

lemma nll_row_eq:
  assumes "i < length d" and "length (d ! i) \<le> n_cols d"
  shows "nll_row i d muest kinv nll =
         bind_e (nll_i (d ! i) muest kinv) (\<lambda>a. Inr (dadd nll a))"
proof -
  let ?io = "find_finite (d ! i)"
  have io: "\<forall>c\<in>set ?io. c < n_cols d"
    using assms by (auto simp: set_find_finite)
  have x: "submat d [i] ?io = Inr [map (\<lambda>c. d ! i ! c) ?io]"
    using assms io by (simp add: submat_eq_Inr n_rows_def)
  have x': "elem (d ! i) ?io = Inr (map (\<lambda>c. d ! i ! c) ?io)"
    by (simp add: elem_eq_Inr set_find_finite)
  show ?thesis
    unfolding nll_row_def nll_i_def Let_def x x' bind_e_assoc bind_e_Inr
    by (intro bind_e_cong refl) (simp add: colvec_of_def log_2pi_eq)
qed

lemma nll_loop_eq:
  assumes "\<forall>i\<in>set ixs. i < length d \<and> length (d ! i) \<le> n_cols d"
  shows "nll_loop ixs d muest kinv nll =
         bind_e (nll_sum (map (\<lambda>i. d ! i) ixs) muest kinv) (\<lambda>b. Inr (dadd nll b))"
  using assms
proof (induction ixs arbitrary: nll)
  case Nil
  then show ?case by simp
next
  case (Cons i ixs)
  from Cons.prems have i: "i < length d" "length (d ! i) \<le> n_cols d"
    and rest: "\<forall>j\<in>set ixs. j < length d \<and> length (d ! j) \<le> n_cols d"
    by auto
  show ?case
  proof (cases "nll_i (d ! i) muest kinv")
    case (Inl e)
    then show ?thesis by (simp add: nll_row_eq [OF i])
  next
    case (Inr a)
    with Cons.IH [OF rest, of "dadd nll a"] show ?thesis
      by (cases "nll_sum (map (\<lambda>i. d ! i) ixs) muest kinv")
         (simp_all add: nll_row_eq [OF i] dadd_assoc)
  qed
qed

lemma is_mat_rows_ok:
  assumes "is_mat d n p"
  shows "\<forall>i\<in>set [0..<n_rows d]. i < length d \<and> length (d ! i) \<le> n_cols d"
proof
  fix i assume "i \<in> set [0..<n_rows d]"
  then have i: "i < length d" by (simp add: n_rows_def)
  with assms have "i < n" by (simp add: is_mat_length)
  with assms have "length (d ! i) = p" "n_cols d = p"
    by (simp_all add: is_mat_row is_mat_n_cols)
  with i show "i < length d \<and> length (d ! i) \<le> n_cols d" by simp
qed

lemma nllprec_spec:
  assumes "is_mat d n p"
  shows "nllprec d muest kest = spec_nll d muest kest"
proof -
  have "nll_loop [0..<n_rows d] d muest kinv (Fin 0) = nll_sum d muest kinv" for kinv
    using nll_loop_eq [OF is_mat_rows_ok [OF assms], of muest kinv "Fin 0"]
    by (cases "nll_sum d muest kinv") (simp_all add: n_rows_def map_nth)
  then show ?thesis by (simp add: nllprec_def spec_nll_def)
qed

lemma nll_i_no_observed:
  assumes "find_finite x = []"
  shows "nll_i x \<mu> S = Inr (Fin 0)"
  using assms
  by (simp add: nll_i_def submat_def elem_def inv_m_def is_square_def vsub_def vm_def trans_m_def
      n_cols_def)

text \<open>
  Claim C4. For a well-formed data matrix, \<^verbatim>\<open>nllprec\<close> is the negative
  log-likelihood of the specification: \<open>kest\<close> is inverted once, every row contributes
  \<open>nll_i\<close> computed from the block \<open>S\<^sub>o\<^sub>o\<close> of that inverse, and the contributions are
  summed; an exception of the inversion or of a row is the exception of the call. A
  row without a finite cell contributes \<open>0\<close>.
\<close>

theorem nllprec_formula:
  assumes "is_mat d n p"
  shows "nllprec d muest kest = spec_nll d muest kest \<and>
         (\<forall>x S. find_finite x = [] \<longrightarrow> nll_i x muest S = Inr (Fin 0))"
  using nllprec_spec [OF assms] by (simp add: nll_i_no_observed)

text \<open>
  At \<open>K = [[2, 1], [1, 2]]\<close> and a row that observes the first column only, the
  block of the covariance is \<open>[[2 / 3]]\<close>, whereas the inverse of the block of \<open>K\<close> would
  be \<open>[[1 / 2]]\<close>: the value has \<open>ln (2 / 3)\<close>.
\<close>

theorem nllprec_formula_witness:
  "is_mat [[Fin 0, NaN]] 1 2 \<and>
   spec_nll [[Fin 0, NaN]] [Fin 0, Fin 0] [[Fin 2, Fin 1], [Fin 1, Fin 2]]
     = Inr (Fin (1 / 2 * (ln (2 / 3) + ln (2 * pi)))) \<and>
   inv_m [[Fin 2, Fin 1], [Fin 1, Fin 2]]
     = Inr [[Fin (2 / 3), Fin (- 1 / 3)], [Fin (- 1 / 3), Fin (2 / 3)]] \<and>
   inv_block [[Fin 2, Fin 1], [Fin 1, Fin 2]] [0] = Inr [[Fin (1 / 2)]]"
proof -
  have h: "is_mat [[Fin 0, NaN]] 1 2"
    by (simp add: is_mat_def)
  have v: "nllprec [[Fin 0, NaN]] [Fin 0, Fin 0] [[Fin 2, Fin 1], [Fin 1, Fin 2]]
     = Inr (Fin (1 / 2 * (ln (2 / 3) + ln (2 * pi))))"
    by (simp add: nllprec_def nll_row_def n_rows_def n_cols_def find_finite_def elem_def submat_def
      inv_m_def is_square_def dsum_def sign_d_def del_nth_def cofactor_def minor_m_def
      colvec_of_def vsub_def vm_def dot_def trans_m_def dsub_def log_2pi_def)
  have i: "inv_m [[Fin 2, Fin 1], [Fin 1, Fin 2]]
     = Inr [[Fin (2 / 3), Fin (- 1 / 3)], [Fin (- 1 / 3), Fin (2 / 3)]]"
    and b: "inv_block [[Fin 2, Fin 1], [Fin 1, Fin 2]] [0] = Inr [[Fin (1 / 2)]]"
    by code_simp+
  from nllprec_formula [OF h, of "[Fin 0, Fin 0]" "[[Fin 2, Fin 1], [Fin 1, Fin 2]]"] v
  have "spec_nll [[Fin 0, NaN]] [Fin 0, Fin 0] [[Fin 2, Fin 1], [Fin 1, Fin 2]]
     = Inr (Fin (1 / 2 * (ln (2 / 3) + ln (2 * pi))))"
    by simp
  with h i b show ?thesis by simp
qed

lemma is_mat_append: "is_mat A n p \<Longrightarrow> is_mat B m p \<Longrightarrow> is_mat (A @ B) (n + m) p"
  by (simp add: is_mat_def)

lemma is_mat_mset: "mset D' = mset D \<Longrightarrow> is_mat D n p \<Longrightarrow> is_mat D' n p"
  by (metis is_mat_def list_all_iff mset_eq_setD size_mset)

lemmas eval_defs = nllprec_def nll_row_def n_rows_def n_cols_def find_finite_def elem_def submat_def
      inv_m_def is_square_def dsum_def sign_d_def del_nth_def cofactor_def minor_m_def
      colvec_of_def vsub_def vm_def dot_def trans_m_def dsub_def log_2pi_def

section \<open>Claims about \<^verbatim>\<open>EMcycleprec\<close>\<close>

lemma dmul_one_right [simp]: "dmul a (Fin 1) = a"
  by (cases a) (simp_all add: inf_of_sign_def)


lemma n_cols_trans_m: "is_mat C n p \<Longrightarrow> is_mat (trans_m C) (n_cols C) n"
  by (simp add: is_mat_def trans_m_def list_all_iff)









section \<open>Claims about missing cells\<close>


lemma same_cell_refl [simp]: "same_cell a a"
  by (simp add: same_cell_def)


lemma same_row_observed:
  assumes "list_all2 same_cell x y" and "j \<in> set (find_finite x)"
  shows "y ! j = x ! j"
proof -
  from assms(2) have "j < length x" "is_finite (x ! j)" by (simp_all add: set_find_finite)
  with assms(1) show ?thesis
    by (auto dest!: list_all2_nthD [where p = j] simp: same_cell_def)
qed




lemma same_row_upd_cols:
  assumes "list_all2 same_cell x y" and "length xs = length (find_nonfinite x)"
  shows "upd_cols (\<lambda>old new. new) y (find_nonfinite x) xs
       = upd_cols (\<lambda>old new. new) x (find_nonfinite x) xs"
proof (rule nth_equalityI)
  from assms have l: "length y = length x" by (simp add: list_all2_lengthD)
  then show "length (upd_cols (\<lambda>old new. new) y (find_nonfinite x) xs)
     = length (upd_cols (\<lambda>old new. new) x (find_nonfinite x) xs)" by simp
  fix j assume "j < length (upd_cols (\<lambda>old new. new) y (find_nonfinite x) xs)"
  then have j: "j < length x" using l by simp
  have b: "\<forall>c\<in>set (find_nonfinite x). c < length x" "\<forall>c\<in>set (find_nonfinite x). c < length y"
    using l by (simp_all add: set_find_nonfinite)
  show "upd_cols (\<lambda>old new. new) y (find_nonfinite x) xs ! j
      = upd_cols (\<lambda>old new. new) x (find_nonfinite x) xs ! j"
  proof (cases "j \<in> set (find_nonfinite x)")
    case True
    with j l show ?thesis
      by (simp add: upd_cols_closed [OF distinct_find_nonfinite b(1) assms(2)]
          upd_cols_closed [OF distinct_find_nonfinite b(2) assms(2)])
  next
    case False
    with j have "j \<in> set (find_finite x)"
      by (simp add: set_find_finite set_find_nonfinite)
    with assms(1) have "y ! j = x ! j" by (rule same_row_observed)
    with False show ?thesis by (simp add: upd_cols_other)
  qed
qed

lemma cond_mean_length:
  "cond_mean x \<mu> K = Inr xhat \<Longrightarrow> length xhat = length (find_nonfinite x)"
  by (auto simp: cond_mean_def Let_def bind_e_eq_Inr elem_eq_Inr submat_eq_Inr
      dest!: length_inv_m)

lemma upd_cols_fill_row:
  assumes "length xhat = length (find_nonfinite x)"
  shows "upd_cols (\<lambda>old new. new) x (find_nonfinite x) xhat = fill_row x xhat"
proof -
  have b: "\<forall>c\<in>set (find_nonfinite x). c < length x"
    by (simp add: set_find_nonfinite)
  show ?thesis
    unfolding fill_row_def upd_cols_closed [OF distinct_find_nonfinite b assms]
    by (auto simp: set_find_nonfinite)
qed

lemma imp1_loop_upt:
  assumes "is_mat d n p" and "k \<le> n"
  shows "imp1_loop [k..<n] d muest kest =
         bind_e (spec_impute (drop k d) muest kest) (\<lambda>R. Inr (take k d @ R))"
  using assms
proof (induction "n - k" arbitrary: k d)
  case 0
  then have "k = n" by simp
  with "0.prems" show ?case by (simp add: is_mat_length)
next
  case (Suc m)
  then have k: "k < n" by simp
  with Suc.prems have kl: "k < length d" and lk: "length (d ! k) \<le> n_cols d"
    by (simp_all add: is_mat_length is_mat_row is_mat_n_cols)
  have up: "[k..<n] = k # [Suc k..<n]" using k by (simp add: upt_conv_Cons)
  have dr: "drop k d = d ! k # drop (Suc k) d" using kl by (simp add: Cons_nth_drop_Suc)
  show ?case
  proof (cases "cond_mean (d ! k) muest kest")
    case (Inl e)
    then show ?thesis by (simp add: up dr imp1_row_eq [OF kl lk])
  next
    case (Inr xhat)
    let ?d1 = "d[k := upd_cols (\<lambda>old new. new) (d ! k) (find_nonfinite (d ! k)) xhat]"
    from Inr have f: "upd_cols (\<lambda>old new. new) (d ! k) (find_nonfinite (d ! k)) xhat
        = fill_row (d ! k) xhat"
      by (intro upd_cols_fill_row cond_mean_length)
    have m1: "is_mat ?d1 n p"
      using Suc.prems(1) k by (intro is_mat_update) (simp_all add: is_mat_row)
    have m: "m = n - Suc k" using Suc.hyps(2) by simp
    have k1: "Suc k \<le> n" using k by simp
    have t: "take (Suc k) ?d1 = take k d @ [fill_row (d ! k) xhat]"
      using kl by (simp add: take_Suc_conv_app_nth f)
    have "imp1_loop [Suc k..<n] ?d1 muest kest =
         bind_e (spec_impute (drop (Suc k) d) muest kest) (\<lambda>R. Inr (take (Suc k) ?d1 @ R))"
      using Suc.hyps(1) [OF m m1 k1] by simp
    with Inr t show ?thesis
      by (cases "spec_impute (drop (Suc k) d) muest kest")
         (simp_all add: up dr imp1_row_eq [OF kl lk])
  qed
qed

lemma imp1matprec_spec:
  assumes "is_mat D N P"
  shows "imp1matprec D muest kest = spec_impute D muest kest"
proof -
  from assms have "n_rows D = N" by (simp add: n_rows_def is_mat_length)
  with imp1_loop_upt [OF assms, of 0 muest kest] show ?thesis
    by (cases "spec_impute D muest kest") (simp_all add: imp1matprec_def)
qed











section \<open>Facts about the exceptions of element and block access\<close>

lemma inv_m_square:
  assumes "is_square M"
  shows "inv_m M = (if det M = Fin 0 then Inl runtime_error
                    else Inr (map (\<lambda>i. map (\<lambda>j. ddiv (cofactor M j i) (det M)) [0..<length M])
                                [0..<length M]))"
  using assms by (simp add: inv_m_def)

lemma is_mat_square: "is_mat M p p \<Longrightarrow> is_square M"
  by (simp add: is_mat_def is_square_def)

lemma inv_m_is_mat:
  "inv_m M = Inr X \<Longrightarrow> is_mat X (length M) (length M)"
  by (auto simp: inv_m_eq_Inr is_mat_def list_all_iff)

lemma submat_valid:
  assumes "is_mat K p p" and "\<forall>i\<in>set ri. i < p" and "\<forall>i\<in>set ci. i < p"
  shows "submat K ri ci = Inr (map (\<lambda>r. map (\<lambda>c. K ! r ! c) ci) ri)"
proof -
  have "\<forall>c\<in>set ci. c < n_cols K"
  proof
    fix c assume c: "c \<in> set ci"
    with assms(3) have "c < p" by simp
    then have "0 < p" by simp
    with assms(1) have "n_cols K = p" by (rule is_mat_n_cols)
    with \<open>c < p\<close> show "c < n_cols K" by simp
  qed
  with assms show ?thesis by (simp add: submat_eq_Inr n_rows_def is_mat_length)
qed

lemma cond_mean_Inl:
  assumes "length x \<le> length \<mu>" and "inv_block K (find_nonfinite x) = Inl e"
  shows "cond_mean x \<mu> K = Inl e"
proof -
  let ?im = "find_nonfinite x"
  from assms(1) have m1: "elem \<mu> ?im = Inr (map (\<lambda>i. \<mu> ! i) ?im)"
    by (auto simp: elem_eq_Inr set_find_nonfinite)
  show ?thesis
  proof (cases "submat K ?im ?im")
    case (Inl e')
    with assms(2) have "e' = e" by (simp add: inv_block_def)
    with Inl m1 show ?thesis by (simp add: cond_mean_def Let_def)
  next
    case (Inr B)
    with assms(2) have "inv_m B = Inl e" by (simp add: inv_block_def)
    with Inr m1 show ?thesis by (simp add: cond_mean_def Let_def)
  qed
qed

lemma find_nonfinite_less: "\<forall>i\<in>set (find_nonfinite x). i < length x"
  by (simp add: set_find_nonfinite)

lemma find_finite_less: "\<forall>i\<in>set (find_finite x). i < length x"
  by (simp add: set_find_finite)

lemma is_mat_rows: "is_mat D n p \<Longrightarrow> \<forall>x\<in>set D. length x = p"
  by (simp add: is_mat_def list_all_iff)

lemma length_col_sums [simp]: "length (col_sums C) = n_cols C"
  by (simp add: col_sums_def)

lemma index_cases: "j < length x \<Longrightarrow> j \<in> set (find_finite x) \<or> j \<in> set (find_nonfinite x)"
  by (simp add: set_find_finite set_find_nonfinite)

lemma cond_mean_Inr_bounds:
  assumes "cond_mean x \<mu> K = Inr xhat"
  shows "length x \<le> length \<mu> \<and> length x \<le> n_cols K"
proof -
  from assms have m: "\<forall>i\<in>set (find_nonfinite x). i < length \<mu> \<and> i < n_cols K"
    and o: "\<forall>i\<in>set (find_finite x). i < length \<mu> \<and> i < n_cols K"
    by (auto simp: cond_mean_def Let_def bind_e_eq_Inr elem_eq_Inr submat_eq_Inr)
  have "j < length \<mu> \<and> j < n_cols K" if "j < length x" for j
    using index_cases [OF that] m o by blast
  then show ?thesis by (meson less_le_not_le linorder_le_cases)
qed

lemma elem_Inl: "elem v ixs = Inl e \<Longrightarrow> e = out_of_range"
  by (simp add: elem_def split: if_splits)

lemma submat_Inl: "submat M ri ci = Inl e \<Longrightarrow> e = out_of_range"
  by (simp add: submat_def split: if_splits)

lemma submat_square: "submat M ixs ixs = Inr B \<Longrightarrow> is_square B"
  by (auto simp: submat_eq_Inr is_square_def list_all_iff)

lemma cond_mean_Inl_cases:
  assumes "cond_mean x \<mu> K = Inl e"
  shows "e = out_of_range \<or>
         (e = runtime_error \<and> inv_block K (find_nonfinite x) = Inl runtime_error)"
proof -
  let ?im = "find_nonfinite x" and ?io = "find_finite x"
  show ?thesis
  proof (cases "elem \<mu> ?im")
    case (Inl e1)
    with assms have "e1 = e" by (simp add: cond_mean_def Let_def)
    with Inl show ?thesis by (auto dest: elem_Inl)
  next
    case m: (Inr \<mu>_m)
    show ?thesis
    proof (cases "submat K ?im ?im")
      case (Inl e1)
      with assms m have "e1 = e" by (simp add: cond_mean_def Let_def)
      with Inl show ?thesis by (auto dest: submat_Inl)
    next
      case B: (Inr B)
      then have sq: "is_square B" by (rule submat_square)
      show ?thesis
      proof (cases "inv_m B")
        case (Inl e1)
        with assms m B have "e1 = e" by (simp add: cond_mean_def Let_def)
        with Inl sq have "e = runtime_error" by (simp add: inv_m_square split: if_splits)
        with Inl B \<open>e1 = e\<close> show ?thesis by (simp add: inv_block_def)
      next
        case I: (Inr Binv)
        show ?thesis
        proof (cases "submat K ?im ?io")
          case (Inl e1)
          with assms m B I have "e1 = e" by (simp add: cond_mean_def Let_def)
          with Inl show ?thesis by (auto dest: submat_Inl)
        next
          case O: (Inr K_mo)
          have "elem x ?io = Inr (map (\<lambda>i. x ! i) ?io)"
            by (auto simp: elem_eq_Inr set_find_finite)
          with assms m B I O have "elem \<mu> ?io = Inl e"
            by (cases "elem \<mu> ?io") (simp_all add: cond_mean_def Let_def)
          then show ?thesis by (auto dest: elem_Inl)
        qed
      qed
    qed
  qed
qed

lemma imp1matprec_first_row_fails:
  assumes "is_mat D N P" and "0 < N" and "length muest < P \<or> n_cols kest < P"
  shows "imp1matprec D muest kest = Inl out_of_range \<or>
         (imp1matprec D muest kest = Inl runtime_error \<and>
          inv_block kest (find_nonfinite (D ! 0)) = Inl runtime_error)"
proof -
  from assms(1,2) obtain x xs where D: "D = x # xs" by (cases D) (auto simp: is_mat_def)
  with assms(1,2) have lx: "length x = P" using is_mat_row [of D N P 0] by simp
  have "\<not> (\<exists>xhat. cond_mean x muest kest = Inr xhat)"
    using cond_mean_Inr_bounds [of x muest kest] lx assms(3) by auto
  then obtain e where e: "cond_mean x muest kest = Inl e"
    by (cases "cond_mean x muest kest") auto
  then have "spec_impute D muest kest = Inl e" by (simp add: D)
  then have "imp1matprec D muest kest = Inl e"
    by (simp only: imp1matprec_spec [OF assms(1)])
  with cond_mean_Inl_cases [OF e] D show ?thesis by auto
qed


lemma elem_extends:
  assumes "extends_vec \<mu>' \<mu>" and "\<forall>i\<in>set ixs. i < length \<mu>"
  shows "elem \<mu>' ixs = elem \<mu> ixs"
proof -
  from assms(1) have t: "take (length \<mu>) \<mu>' = \<mu>" by (simp add: extends_vec_def)
  then have "length (take (length \<mu>) \<mu>') = length \<mu>" by simp
  then have l: "length \<mu> \<le> length \<mu>'" by simp
  have "\<mu>' ! i = \<mu> ! i" if "i < length \<mu>" for i
  proof -
    from that have "take (length \<mu>) \<mu>' ! i = \<mu>' ! i" by simp
    with t show ?thesis by simp
  qed
  with assms(2) have "map (\<lambda>i. \<mu>' ! i) ixs = map (\<lambda>i. \<mu> ! i) ixs" by simp
  moreover from assms(2) l have "\<forall>i\<in>set ixs. i < length \<mu>'" by auto
  ultimately show ?thesis using assms(2) by (simp add: elem_def list_all_iff)
qed

lemma submat_extends:
  assumes "is_mat K p p" and "extends_mat K' K" and "\<forall>i\<in>set ri. i < p" and "\<forall>i\<in>set ci. i < p"
  shows "submat K' ri ci = submat K ri ci"
proof (cases "p = 0")
  case True
  with assms(3,4) have "ri = []" "ci = []" by (auto intro: ccontr simp: neq_Nil_conv)
  then show ?thesis by (simp add: submat_def)
next
  case False
  then have p: "0 < p" by simp
  with assms(1) have nc: "n_cols K = p" by (rule is_mat_n_cols)
  from assms(1) have lK: "length K = p" by (rule is_mat_length)
  from assms(2) have e: "map (take p) (take p K') = K"
    by (simp add: extends_mat_def nc lK)
  from e have "length (map (take p) (take p K')) = length K" by simp
  with lK have lK': "p \<le> length K'" by simp
  have row: "K ! r = take p (K' ! r)" if "r < p" for r
  proof -
    from that lK' have "map (take p) (take p K') ! r = take p (K' ! r)" by simp
    with e show ?thesis by simp
  qed
  have lrow: "p \<le> length (K' ! r)" if "r < p" for r
  proof -
    from assms(1) that have "length (K ! r) = p" by (rule is_mat_row)
    with row [OF that] have "length (take p (K' ! r)) = p" by simp
    then show ?thesis by simp
  qed
  have val: "K' ! r ! c = K ! r ! c" if "r < p" "c < p" for r c
    using row [OF that(1)] that(2) by simp
  from lK' p have "K' \<noteq> []" by auto
  then have "n_cols K' = length (K' ! 0)" by (cases K') (simp_all add: n_cols_def)
  with lrow [OF p] have nc': "p \<le> n_cols K'" by simp
  have "map (\<lambda>r. map (\<lambda>c. K' ! r ! c) ci) ri = map (\<lambda>r. map (\<lambda>c. K ! r ! c) ci) ri"
    using assms(3,4) val by (intro map_cong refl) simp
  moreover have "\<forall>r\<in>set ri. r < n_rows K'" "\<forall>c\<in>set ci. c < n_cols K'"
    using assms(3,4) lK' nc' by (auto simp: n_rows_def)
  moreover have "\<forall>r\<in>set ri. r < n_rows K" "\<forall>c\<in>set ci. c < n_cols K"
    using assms(3,4) lK nc by (auto simp: n_rows_def)
  ultimately show ?thesis by (simp add: submat_def list_all_iff)
qed

lemma cond_mean_extends:
  assumes "is_mat K p p" and "extends_mat K' K" and "length \<mu> = p" and "extends_vec \<mu>' \<mu>"
    and "length x = p"
  shows "cond_mean x \<mu>' K' = cond_mean x \<mu> K"
proof -
  have m: "\<forall>i\<in>set (find_nonfinite x). i < p" and o: "\<forall>i\<in>set (find_finite x). i < p"
    using find_nonfinite_less [of x] find_finite_less [of x] assms(5) by simp_all
  from m o assms(3) have m': "\<forall>i\<in>set (find_nonfinite x). i < length \<mu>"
    and o': "\<forall>i\<in>set (find_finite x). i < length \<mu>" by simp_all
  show ?thesis
    by (simp add: cond_mean_def Let_def elem_extends [OF assms(4) m'] elem_extends [OF assms(4) o']
        submat_extends [OF assms(1,2) m m] submat_extends [OF assms(1,2) m o])
qed

lemma spec_impute_extends:
  assumes "is_mat K p p" and "extends_mat K' K" and "length \<mu> = p" and "extends_vec \<mu>' \<mu>"
    and "\<forall>x\<in>set xs. length x = p"
  shows "spec_impute xs \<mu>' K' = spec_impute xs \<mu> K"
  using assms(5)
  by (induction xs) (simp_all add: cond_mean_extends [OF assms(1-4)])

lemma imp2_loop_extends:
  assumes "is_mat K p p" and "extends_mat K' K" and "\<forall>i\<in>set ixs. length (d ! i) = p"
  shows "imp2_loop ixs d K' t2 = imp2_loop ixs d K t2"
  using assms(3)
proof (induction ixs arbitrary: t2)
  case Nil
  show ?case by simp
next
  case (Cons i ixs)
  then have li: "length (d ! i) = p" by simp
  have m: "\<forall>j\<in>set (find_nonfinite (d ! i)). j < p"
    using find_nonfinite_less [of "d ! i"] li by simp
  have "imp2_row i d K' t2 = imp2_row i d K t2"
    by (simp add: imp2_row_def submat_extends [OF assms(1,2) m m])
  with Cons show ?case by (simp split: sum.splits)
qed

lemma imp1_EM_extends:
  assumes "is_mat D N P" and "length muest = P" and "is_mat kest P P"
    and "extends_vec mu' muest" and "extends_mat K' kest"
  shows "imp1matprec D mu' K' = imp1matprec D muest kest \<and>
         EMcycleprec D mu' K' = EMcycleprec D muest kest"
proof -
  have a: "imp1matprec D mu' K' = imp1matprec D muest kest"
    by (simp add: imp1matprec_spec [OF assms(1)]
        spec_impute_extends [OF assms(3,5,2,4) is_mat_rows [OF assms(1)]])
  have "\<forall>i\<in>set [0..<n_rows D]. length (D ! i) = P"
    using assms(1) by (simp add: n_rows_def is_mat_length is_mat_row)
  then have b: "imp2matprec D K' t = imp2matprec D kest t" for t
    by (simp add: imp2matprec_def imp2_loop_extends [OF assms(3,5)])
  from a b show ?thesis by (simp add: EMcycleprec_def)
qed

section \<open>Claims about shapes\<close>

text \<open>
  Claim C8, amended. The source has no test of the shapes of its arguments; a wrong
  shape is noticed only where an index leaves a vector or a matrix. For a data matrix
  \<open>D\<close> of shape \<open>N \<times> P\<close>: when \<open>D\<close> has a row and \<open>muest\<close> has fewer than \<open>P\<close> entries
  or \<open>kest\<close> fewer than \<open>P\<close> columns, \<^verbatim>\<open>imp1matprec\<close> and \<^verbatim>\<open>EMcycleprec\<close> fail while the
  first row is imputed, with \<^verbatim>\<open>std::out_of_range\<close>, or with \<^verbatim>\<open>std::runtime_error\<close> when
  the block \<open>K\<^sub>m\<^sub>m\<close> of that row is in range and singular. A vector that continues a
  \<open>muest\<close> of length \<open>P\<close>, and a matrix that has a \<open>P \<times> P\<close> matrix \<open>kest\<close> as its upper
  left block, are accepted and give the results of \<open>muest\<close> and \<open>kest\<close>. Without rows,
  \<^verbatim>\<open>imp1matprec\<close> returns for every \<open>muest\<close> and \<open>kest\<close>.
\<close>

theorem shape_noticed_by_index_checks:
  assumes "is_mat D N P"
  shows "(0 < N \<and> (length muest < P \<or> n_cols kest < P) \<longrightarrow>
            (imp1matprec D muest kest = Inl out_of_range \<and>
             EMcycleprec D muest kest = Inl out_of_range) \<or>
            (imp1matprec D muest kest = Inl runtime_error \<and>
             EMcycleprec D muest kest = Inl runtime_error \<and>
             inv_block kest (find_nonfinite (D ! 0)) = Inl runtime_error)) \<and>
         (length muest = P \<and> is_mat kest P P \<and> extends_vec mu' muest \<and> extends_mat K' kest \<longrightarrow>
            imp1matprec D mu' K' = imp1matprec D muest kest \<and>
            EMcycleprec D mu' K' = EMcycleprec D muest kest) \<and>
         (N = 0 \<longrightarrow> imp1matprec D muest kest = Inr [])"
proof (intro conjI impI)
  assume a: "0 < N \<and> (length muest < P \<or> n_cols kest < P)"
  then have "0 < N" and "length muest < P \<or> n_cols kest < P" by simp_all
  from imp1matprec_first_row_fails [OF assms this]
  show "(imp1matprec D muest kest = Inl out_of_range \<and>
             EMcycleprec D muest kest = Inl out_of_range) \<or>
            (imp1matprec D muest kest = Inl runtime_error \<and>
             EMcycleprec D muest kest = Inl runtime_error \<and>
             inv_block kest (find_nonfinite (D ! 0)) = Inl runtime_error)"
    by (auto simp: EMcycleprec_def)
next
  assume "length muest = P \<and> is_mat kest P P \<and> extends_vec mu' muest \<and> extends_mat K' kest"
  then have "length muest = P" "is_mat kest P P" "extends_vec mu' muest" "extends_mat K' kest"
    by simp_all
  from imp1_EM_extends [OF assms this]
  show "imp1matprec D mu' K' = imp1matprec D muest kest"
    and "EMcycleprec D mu' K' = EMcycleprec D muest kest"
    by simp_all
next
  assume "N = 0"
  with assms have "D = []" by (simp add: is_mat_def)
  then show "imp1matprec D muest kest = Inr []"
    by (simp add: imp1matprec_def n_rows_def)
qed

theorem shape_noticed_by_index_checks_witness:
  "is_mat [[NaN, Fin 1]] 1 2 \<and>
   imp1matprec [[NaN, Fin 1]] [Fin 0] [[Fin 2, Fin 1], [Fin 1, Fin 2]] = Inl out_of_range \<and>
   EMcycleprec [[NaN, Fin 1]] [Fin 0] [[Fin 2, Fin 1], [Fin 1, Fin 2]] = Inl out_of_range \<and>
   extends_vec [Fin 0, Fin 0, Fin 9] [Fin 0, Fin 0] \<and>
   extends_mat [[Fin 2, Fin 1, Fin 7], [Fin 1, Fin 2, Fin 7], [Fin 7, Fin 7, Fin 7]]
     [[Fin 2, Fin 1], [Fin 1, Fin 2]] \<and>
   imp1matprec [[NaN, Fin 1]] [Fin 0, Fin 0, Fin 9]
     [[Fin 2, Fin 1, Fin 7], [Fin 1, Fin 2, Fin 7], [Fin 7, Fin 7, Fin 7]]
     = Inr [[Fin (- 1 / 2), Fin 1]]"
proof -
  let ?D = "[[NaN, Fin 1]]" and ?K = "[[Fin 2, Fin 1], [Fin 1, Fin 2]]"
  let ?K' = "[[Fin 2, Fin 1, Fin 7], [Fin 1, Fin 2, Fin 7], [Fin 7, Fin 7, Fin 7]]"
  have h: "is_mat ?D 1 2" by (simp add: is_mat_def)
  have s: "0 < (1::nat) \<and> (length [Fin 0] < (2::nat) \<or> n_cols ?K < 2)" by simp
  have ns: "inv_block ?K (find_nonfinite (?D ! 0)) \<noteq> Inl runtime_error" by code_simp
  have e: "length [Fin 0, Fin 0 :: dbl] = 2 \<and> is_mat ?K 2 2 \<and>
      extends_vec [Fin 0, Fin 0, Fin 9] [Fin 0, Fin 0] \<and> extends_mat ?K' ?K"
    by (simp add: is_mat_def extends_vec_def extends_mat_def n_cols_def)
  have v: "imp1matprec ?D [Fin 0, Fin 0] ?K = Inr [[Fin (- 1 / 2), Fin 1]]" by code_simp
  note t1 = shape_noticed_by_index_checks [OF h, of "[Fin 0]" ?K]
  note t2 = shape_noticed_by_index_checks [OF h, of "[Fin 0, Fin 0]" ?K "[Fin 0, Fin 0, Fin 9]" ?K']
  from t1 s ns have a: "imp1matprec ?D [Fin 0] ?K = Inl out_of_range"
    and b: "EMcycleprec ?D [Fin 0] ?K = Inl out_of_range"
    by blast+
  from t2 e v have c: "imp1matprec ?D [Fin 0, Fin 0, Fin 9] ?K' = Inr [[Fin (- 1 / 2), Fin 1]]"
    by simp
  from h a b e c show ?thesis by blast
qed

text \<open>
  The claim as stated fails: a \<open>muest\<close> of length \<open>3\<close>, a \<open>kest\<close> of shape \<open>3 \<times> 3\<close> and a
  \<open>kest\<close> of shape \<open>1 \<times> 2\<close> are all accepted for data with \<open>P = 2\<close> columns.
\<close>

theorem shape_error_counterexample:
  "n_cols [[NaN, Fin 1]] = 2 \<and> length [Fin 0, Fin 0, Fin 9] = 3 \<and>
   imp1matprec [[NaN, Fin 1]] [Fin 0, Fin 0, Fin 9] [[Fin 2, Fin 1], [Fin 1, Fin 2]]
     = Inr [[Fin (- 1 / 2), Fin 1]] \<and>
   imp1matprec [[NaN, Fin 1]] [Fin 0, Fin 0]
       [[Fin 2, Fin 1, Fin 7], [Fin 1, Fin 2, Fin 7], [Fin 7, Fin 7, Fin 7]]
     = Inr [[Fin (- 1 / 2), Fin 1]] \<and>
   imp1matprec [[NaN, Fin 5]] [Fin 0, Fin 0] [[Fin 2, Fin 1]] = Inr [[Fin (- 5 / 2), Fin 5]] \<and>
   EMcycleprec [[NaN, Fin 1], [Fin 1, Fin 0], [Fin 0, Fin 2]] [Fin 0, Fin 0, Fin 9]
       [[Fin 2, Fin 1], [Fin 1, Fin 2]]
     = Inr ([Fin (1 / 6), Fin 1],
            [[Fin (5 / 9), Fin (- 1 / 3)], [Fin (- 1 / 3), Fin (2 / 3)]],
            [[Fin (18 / 7), Fin (9 / 7)], [Fin (9 / 7), Fin (15 / 7)]])"
  by (intro conjI) code_simp+

section \<open>Claims about memory\<close>

lemma take_eq_length: "take n xs = ys \<Longrightarrow> length ys = n \<Longrightarrow> n \<le> length xs"
  by (metis length_take min.cobounded1)

lemma keeps_refl [simp]: "keeps h h"
  by (simp add: keeps_def)

lemma keeps_lengths:
  "keeps h h' \<Longrightarrow> length (mats h) \<le> length (mats h') \<and> length (vecs h) \<le> length (vecs h')"
  unfolding keeps_def by (metis length_take min.cobounded1)

lemma keeps_trans:
  assumes "keeps a b" and "keeps b c"
  shows "keeps a c"
proof -
  from keeps_lengths [OF assms(1)]
  have m: "length (mats a) \<le> length (mats b)" and v: "length (vecs a) \<le> length (vecs b)"
    by simp_all
  have "take (length (mats a)) (mats c) = take (length (mats a)) (take (length (mats b)) (mats c))"
    using m by (simp add: min_def)
  also have "\<dots> = mats a" using assms by (simp add: keeps_def)
  finally have 1: "take (length (mats a)) (mats c) = mats a" .
  have "take (length (vecs a)) (vecs c) = take (length (vecs a)) (take (length (vecs b)) (vecs c))"
    using v by (simp add: min_def)
  also have "\<dots> = vecs a" using assms by (simp add: keeps_def)
  finally have 2: "take (length (vecs a)) (vecs c) = vecs a" .
  from 1 2 show ?thesis by (simp add: keeps_def)
qed

lemma keeps_mat: "keeps h h' \<Longrightarrow> a < length (mats h) \<Longrightarrow> mats h' ! a = mats h ! a"
  unfolding keeps_def by (metis nth_take)

lemma keeps_vec: "keeps h h' \<Longrightarrow> a < length (vecs h) \<Longrightarrow> vecs h' ! a = vecs h ! a"
  unfolding keeps_def by (metis nth_take)

lemma keeps_new_mat: "new_mat h m = (h', a) \<Longrightarrow> keeps h h' \<and> a = length (mats h) \<and>
    mats h' ! a = m \<and> length (mats h') = Suc (length (mats h)) \<and> vecs h' = vecs h"
  by (auto simp: new_mat_def keeps_def)

lemma keeps_new_vec: "new_vec h v = (h', a) \<Longrightarrow> keeps h h' \<and> a = length (vecs h) \<and>
    vecs h' ! a = v \<and> length (vecs h') = Suc (length (vecs h)) \<and> mats h' = mats h"
  by (auto simp: new_vec_def keeps_def)

lemma keeps_put_mat:
  "keeps h0 h \<Longrightarrow> length (mats h0) \<le> a \<Longrightarrow> keeps h0 (put_mat h a m)"
  by (simp add: keeps_def put_mat_def)

lemma put_mat_simps [simp]:
  "vecs (put_mat h a m) = vecs h"
  "length (mats (put_mat h a m)) = length (mats h)"
  "b \<noteq> a \<Longrightarrow> mats (put_mat h a m) ! b = mats h ! b"
  "a < length (mats h) \<Longrightarrow> mats (put_mat h a m) ! a = m"
  by (simp_all add: put_mat_def)

lemma imp1_loop_h_keeps:
  "imp1_loop_h ixs d muest kest h = (h', r) \<Longrightarrow> keeps h0 h \<Longrightarrow> length (mats h0) \<le> d \<Longrightarrow>
   keeps h0 h' \<and> length (mats h') = length (mats h) \<and> vecs h' = vecs h"
proof (induction ixs arbitrary: h)
  case Nil
  then show ?case by simp
next
  case (Cons i ixs)
  show ?case
  proof (cases "imp1_row i (mats h ! d) (vecs h ! muest) (mats h ! kest)")
    case (Inl e)
    with Cons.prems show ?thesis by simp
  next
    case (Inr d')
    with Cons.prems(1) have "imp1_loop_h ixs d muest kest (put_mat h d d') = (h', r)" by simp
    from Cons.IH [OF this keeps_put_mat [OF Cons.prems(2,3)] Cons.prems(3)]
    show ?thesis by simp
  qed
qed

lemma imp1_loop_h_pure:
  assumes "d \<noteq> kest" and "d < length (mats h)"
  shows "imp1_loop ixs (mats h ! d) (vecs h ! muest) (mats h ! kest) =
         (case imp1_loop_h ixs d muest kest h of
            (h', Inl e) \<Rightarrow> Inl e
          | (h', Inr a) \<Rightarrow> Inr (mats h' ! a))"
  using assms(2)
proof (induction ixs arbitrary: h)
  case Nil
  show ?case by simp
next
  case (Cons i ixs)
  show ?case
  proof (cases "imp1_row i (mats h ! d) (vecs h ! muest) (mats h ! kest)")
    case (Inl e)
    then show ?thesis by simp
  next
    case (Inr d')
    let ?h = "put_mat h d d'"
    from Cons.prems have "d < length (mats ?h)" by simp
    from Cons.IH [OF this] Cons.prems assms(1) Inr show ?thesis by simp
  qed
qed


lemma imp1_loop_h_addr: "imp1_loop_h ixs d muest kest h = (h', Inr a) \<Longrightarrow> a = d"
  by (induction ixs arbitrary: h) (auto split: sum.splits)

lemma imp1matprec_h_result:
  assumes "imp1matprec_h h D muest kest = (h', r)"
    and "D < length (mats h)" and "kest < length (mats h)"
  shows "keeps h h' \<and> vecs h' = vecs h \<and> length (mats h') = Suc (length (mats h)) \<and>
         imp1matprec (mats h ! D) (vecs h ! muest) (mats h ! kest) =
           (case r of Inl e \<Rightarrow> Inl e | Inr a \<Rightarrow> Inr (mats h' ! a)) \<and>
         (\<forall>a. r = Inr a \<longrightarrow> a = length (mats h))"
proof -
  obtain h1 d where c: "mat_ctor h D True = (h1, d)" by (cases "mat_ctor h D True")
  then have n: "new_mat h (mats h ! D) = (h1, d)" by (simp add: mat_ctor_def)
  from keeps_new_mat [OF n] have k1: "keeps h h1" and d: "d = length (mats h)"
    and md: "mats h1 ! d = mats h ! D" and l1: "length (mats h1) = Suc (length (mats h))"
    and v1: "vecs h1 = vecs h"
    by blast+
  from assms(1) c have l: "imp1_loop_h [0..<n_rows (mats h1 ! d)] d muest kest h1 = (h', r)"
    by (simp add: imp1matprec_h_def)
  from imp1_loop_h_keeps [OF l k1] d
  have k: "keeps h h'" and lh: "length (mats h') = length (mats h1)" and vh: "vecs h' = vecs h1"
    by simp_all
  from assms(3) d have dk: "d \<noteq> kest" by simp
  from d l1 have dl: "d < length (mats h1)" by simp
  from k1 assms(3) have mk: "mats h1 ! kest = mats h ! kest" by (rule keeps_mat)
  from imp1_loop_h_pure [OF dk dl, of "[0..<n_rows (mats h1 ! d)]" muest] l
  have "imp1_loop [0..<n_rows (mats h ! D)] (mats h ! D) (vecs h ! muest) (mats h ! kest) =
         (case r of Inl e \<Rightarrow> Inl e | Inr a \<Rightarrow> Inr (mats h' ! a))"
    by (simp add: md mk v1 split: sum.splits)
  then have p: "imp1matprec (mats h ! D) (vecs h ! muest) (mats h ! kest) =
           (case r of Inl e \<Rightarrow> Inl e | Inr a \<Rightarrow> Inr (mats h' ! a))"
    by (simp add: imp1matprec_def)
  have a: "\<forall>a. r = Inr a \<longrightarrow> a = length (mats h)"
    using imp1_loop_h_addr l d by blast
  from k lh l1 vh v1 p a show ?thesis by simp
qed

lemma imp2_loop_h_frame:
  "imp2_loop_h ixs d kest t2 h = (h', st) \<Longrightarrow>
   vecs h' = vecs h \<and> length (mats h') = length (mats h) \<and>
   (\<forall>a. a \<noteq> t2 \<longrightarrow> mats h' ! a = mats h ! a)"
proof (induction ixs arbitrary: h)
  case Nil
  then show ?case by simp
next
  case (Cons i ixs)
  show ?case
  proof (cases "imp2_row i (mats h ! d) (mats h ! kest) (mats h ! t2)")
    case (Inl e)
    with Cons.prems show ?thesis by simp
  next
    case (Inr t)
    with Cons.prems have "imp2_loop_h ixs d kest t2 (put_mat h t2 t) = (h', st)" by simp
    from Cons.IH [OF this] show ?thesis by simp
  qed
qed

lemma imp2_loop_h_pure:
  assumes "t2 \<noteq> d" and "t2 \<noteq> kest" and "t2 < length (mats h)"
  shows "imp2_loop ixs (mats h ! d) (mats h ! kest) (mats h ! t2) =
         (case imp2_loop_h ixs d kest t2 h of (h', st) \<Rightarrow> (st, mats h' ! t2))"
  using assms(3)
proof (induction ixs arbitrary: h)
  case Nil
  show ?case by simp
next
  case (Cons i ixs)
  show ?case
  proof (cases "imp2_row i (mats h ! d) (mats h ! kest) (mats h ! t2)")
    case (Inl e)
    then show ?thesis by simp
  next
    case (Inr t)
    let ?h = "put_mat h t2 t"
    from Cons.prems have "t2 < length (mats ?h)" by simp
    from Cons.IH [OF this] Cons.prems assms(1,2) Inr show ?thesis
      by (simp add: not_sym [OF assms(1)] not_sym [OF assms(2)])
  qed
qed

lemma imp2matprec_h_result:
  assumes "imp2matprec_h h D kest t2 = (h', st)"
    and "D < length (mats h)" and "kest < length (mats h)" and "t2 < length (mats h)"
  shows "vecs h' = vecs h \<and> length (mats h') = Suc (length (mats h)) \<and>
         (\<forall>a<length (mats h). a \<noteq> t2 \<longrightarrow> mats h' ! a = mats h ! a) \<and>
         (t2 \<noteq> kest \<longrightarrow>
            imp2matprec (mats h ! D) (mats h ! kest) (mats h ! t2) = (st, mats h' ! t2))"
proof -
  obtain h1 d where c: "mat_ctor h D True = (h1, d)" by (cases "mat_ctor h D True")
  then have n: "new_mat h (mats h ! D) = (h1, d)" by (simp add: mat_ctor_def)
  from keeps_new_mat [OF n] have k1: "keeps h h1" and d: "d = length (mats h)"
    and md: "mats h1 ! d = mats h ! D" and l1: "length (mats h1) = Suc (length (mats h))"
    and v1: "vecs h1 = vecs h"
    by blast+
  from assms(1) c have l: "imp2_loop_h [0..<n_rows (mats h1 ! d)] d kest t2 h1 = (h', st)"
    by (simp add: imp2matprec_h_def)
  note f = imp2_loop_h_frame [OF l]
  have fr: "\<forall>a<length (mats h). a \<noteq> t2 \<longrightarrow> mats h' ! a = mats h ! a"
    using f k1 by (simp add: keeps_mat)
  from assms(4) d have td: "t2 \<noteq> d" by simp
  from assms(4) l1 have tl: "t2 < length (mats h1)" by simp
  from k1 assms(3) have mk: "mats h1 ! kest = mats h ! kest" by (rule keeps_mat)
  from k1 assms(4) have mt: "mats h1 ! t2 = mats h ! t2" by (rule keeps_mat)
  have p: "imp2matprec (mats h ! D) (mats h ! kest) (mats h ! t2) = (st, mats h' ! t2)"
    if tk: "t2 \<noteq> kest"
    using imp2_loop_h_pure [OF td tk tl, of "[0..<n_rows (mats h1 ! d)]"] l
    by (simp add: md mk mt imp2matprec_def)
  from f l1 v1 fr p show ?thesis by simp
qed

lemma keeps_frame:
  assumes "keeps h0 h" and "length (mats h) \<le> length (mats h')" and "vecs h' = vecs h"
    and "\<forall>a<length (mats h0). mats h' ! a = mats h ! a"
  shows "keeps h0 h'"
proof -
  from keeps_lengths [OF assms(1)] have l: "length (mats h0) \<le> length (mats h)" by simp
  have "take (length (mats h0)) (mats h') = take (length (mats h0)) (mats h)"
    using assms(2,4) l by (intro nth_equalityI) simp_all
  with assms(1,3) show ?thesis by (simp add: keeps_def)
qed

lemma EMcycleprec_h_result:
  assumes E: "EMcycleprec_h h D muest kest = (h', r)"
    and D: "D < length (mats h)" and K: "kest < length (mats h)"
  shows "keeps h h' \<and>
         EMcycleprec (mats h ! D) (vecs h ! muest) (mats h ! kest) =
           (case r of Inl e \<Rightarrow> Inl e
            | Inr (a, b, c) \<Rightarrow> Inr (vecs h' ! a, mats h' ! b, mats h' ! c)) \<and>
         (\<forall>a b c. r = Inr (a, b, c) \<longrightarrow>
            length (vecs h) \<le> a \<and> length (mats h) \<le> b \<and> length (mats h) \<le> c)"
proof -
  obtain h1 r1 where i1: "imp1matprec_h h D muest kest = (h1, r1)"
    by (cases "imp1matprec_h h D muest kest")
  from imp1matprec_h_result [OF i1 D K]
  have k1: "keeps h h1" and v1: "vecs h1 = vecs h"
    and l1: "length (mats h1) = Suc (length (mats h))"
    and p1: "imp1matprec (mats h ! D) (vecs h ! muest) (mats h ! kest) =
           (case r1 of Inl e \<Rightarrow> Inl e | Inr a \<Rightarrow> Inr (mats h1 ! a))"
    and a1: "\<forall>a. r1 = Inr a \<longrightarrow> a = length (mats h)"
    by blast+
  show ?thesis
  proof (cases r1)
    case (Inl e)
    with E i1 have "h' = h1" "r = Inl e" by (simp_all add: EMcycleprec_h_def)
    with k1 p1 Inl show ?thesis by (simp add: EMcycleprec_def)
  next
    case (Inr dimp)
    with a1 have dimp: "dimp = length (mats h)" by simp
    let ?C = "mats h1 ! dimp"
    let ?N = "n_rows ?C"
    from p1 Inr have pC: "imp1matprec (mats h ! D) (vecs h ! muest) (mats h ! kest) = Inr ?C"
      by simp
    let ?t1 = "mv (trans_m ?C) (ones ?N)"
    let ?T = "mm (trans_m ?C) ?C"
    let ?h4 = "h1\<lparr>vecs := vecs h1 @ [ones ?N, ?t1], mats := mats h1 @ [?T]\<rparr>"
    let ?t2 = "Suc (length (mats h))"
    have k4: "keeps h1 ?h4" by (simp add: keeps_def)
    obtain h5 st where i2: "imp2matprec_h ?h4 D kest ?t2 = (h5, st)"
      by (cases "imp2matprec_h ?h4 D kest ?t2")
    have D4: "D < length (mats ?h4)" and K4: "kest < length (mats ?h4)"
      and T4: "?t2 < length (mats ?h4)"
      using D K l1 by simp_all
    from imp2matprec_h_result [OF i2 D4 K4 T4] K
    have v5: "vecs h5 = vecs ?h4" and l5: "length (mats h5) = Suc (length (mats ?h4))"
      and f5: "\<forall>a<length (mats ?h4). a \<noteq> ?t2 \<longrightarrow> mats h5 ! a = mats ?h4 ! a"
      and p5: "imp2matprec (mats ?h4 ! D) (mats ?h4 ! kest) (mats ?h4 ! ?t2) = (st, mats h5 ! ?t2)"
      by auto
    from k1 D K l1 have mD: "mats ?h4 ! D = mats h ! D" and mK: "mats ?h4 ! kest = mats h ! kest"
      by (simp_all add: nth_append keeps_mat)
    from l1 have mT: "mats ?h4 ! ?t2 = ?T" by (simp add: nth_append)
    from p5 have p5': "imp2matprec (mats h ! D) (mats h ! kest) ?T = (st, mats h5 ! ?t2)"
      by (simp only: mD mK mT)
    have k14: "keeps h ?h4" using k1 k4 by (rule keeps_trans)
    have k5: "keeps h h5"
    proof (rule keeps_frame [OF k14])
      show "length (mats ?h4) \<le> length (mats h5)" using l5 by simp
      show "vecs h5 = vecs ?h4" by (rule v5)
      show "\<forall>a<length (mats h). mats h5 ! a = mats ?h4 ! a"
        using f5 l1 by simp
    qed
    have t1: "vecs h5 ! Suc (length (vecs h1)) = ?t1" by (simp add: v5 nth_append)
    from l5 l1 have lt: "?t2 < length (mats h5)" by simp
    note unfold = EMcycleprec_h_def new_vec_def new_mat_def Let_def nth_append dimp t1 lt
    show ?thesis
    proof (cases st)
      case (Some e)
      with i1 Inr i2 l1 have "EMcycleprec_h h D muest kest = (h5, Inl e)"
        by (simp add: unfold)
      with E have "h' = h5" "r = Inl e" by simp_all
      with k5 pC p5' Some show ?thesis by (simp add: EMcycleprec_def Let_def)
    next
      case None
      let ?mu = "vdiv ?t1 (Fin (real ?N))"
      let ?S = "msub (mdiv (mats h5 ! ?t2) (Fin (real ?N))) (outer ?mu ?mu)"
      let ?h7 = "h5\<lparr>vecs := vecs h5 @ [?mu], mats := mats h5 @ [?S]\<rparr>"
      have k7: "keeps h5 ?h7" by (simp add: keeps_def)
      have pure: "EMcycleprec (mats h ! D) (vecs h ! muest) (mats h ! kest) =
          bind_e (inv_m ?S) (\<lambda>newK. Inr (?mu, ?S, newK))"
        using pC p5' None by (simp add: EMcycleprec_def Let_def)
      from keeps_lengths [OF k5] have lm: "length (mats h) \<le> length (mats h5)"
        and lv: "length (vecs h) \<le> length (vecs h5)" by simp_all
      show ?thesis
      proof (cases "inv_m ?S")
        case (Inl e)
        with i1 \<open>r1 = Inr dimp\<close> i2 l1 None
        have "EMcycleprec_h h D muest kest = (?h7, Inl e)"
          by (simp add: unfold)
        with E have "h' = ?h7" "r = Inl e" by simp_all
        with keeps_trans [OF k5 k7] pure Inl show ?thesis by simp
      next
        case (Inr X)
        let ?h8 = "?h7\<lparr>mats := mats ?h7 @ [X]\<rparr>"
        have k8: "keeps h5 ?h8" by (simp add: keeps_def)
        from i1 \<open>r1 = Inr dimp\<close> i2 l1 None Inr
        have "EMcycleprec_h h D muest kest =
           (?h8, Inr (length (vecs h5), length (mats h5), Suc (length (mats h5))))"
          by (simp add: unfold)
        with E have h': "h' = ?h8"
          and r: "r = Inr (length (vecs h5), length (mats h5), Suc (length (mats h5)))"
          by simp_all
        from keeps_trans [OF k5 k8] h' have "keeps h h'" by simp
        moreover have "EMcycleprec (mats h ! D) (vecs h ! muest) (mats h ! kest) =
           (case r of Inl e \<Rightarrow> Inl e
            | Inr (a, b, c) \<Rightarrow> Inr (vecs h' ! a, mats h' ! b, mats h' ! c))"
          by (simp add: pure Inr r h' nth_append)
        moreover have "\<forall>a b c. r = Inr (a, b, c) \<longrightarrow>
            length (vecs h) \<le> a \<and> length (mats h) \<le> b \<and> length (mats h) \<le> c"
          using r lm lv by simp
        ultimately show ?thesis by blast
      qed
    qed
  qed
qed

text \<open>
  Claim C6, amended. Let \<open>D\<close> and \<open>kest\<close> be addresses of matrices of the store \<open>h\<close>.
  \<^verbatim>\<open>imp1matprec\<close> leaves every object of \<open>h\<close> as it was, \<open>D\<close>, \<open>muest\<close> and \<open>kest\<close> among
  them, and the matrix it returns is a new object that holds the completed matrix.
  \<^verbatim>\<open>EMcycleprec\<close> leaves every object of \<open>h\<close> as it was, and the three objects it returns
  are new and hold the updated parameters. \<^verbatim>\<open>imp2matprec\<close> leaves every object of \<open>h\<close>
  as it was except the matrix at the address \<open>t2\<close>, which it writes. \<^verbatim>\<open>nllprec\<close> takes
  its arguments by value and is a function of them.
\<close>

theorem inputs_kept:
  assumes "D < length (mats h)" and "kest < length (mats h)"
  shows "keeps h (fst (imp1matprec_h h D muest kest)) \<and>
         (\<forall>a. snd (imp1matprec_h h D muest kest) = Inr a \<longrightarrow>
            a = length (mats h) \<and>
            imp1matprec (mats h ! D) (vecs h ! muest) (mats h ! kest)
              = Inr (mats (fst (imp1matprec_h h D muest kest)) ! a)) \<and>
         keeps h (fst (EMcycleprec_h h D muest kest)) \<and>
         (\<forall>a b c. snd (EMcycleprec_h h D muest kest) = Inr (a, b, c) \<longrightarrow>
            length (vecs h) \<le> a \<and> length (mats h) \<le> b \<and> length (mats h) \<le> c \<and>
            EMcycleprec (mats h ! D) (vecs h ! muest) (mats h ! kest)
              = Inr (vecs (fst (EMcycleprec_h h D muest kest)) ! a,
                     mats (fst (EMcycleprec_h h D muest kest)) ! b,
                     mats (fst (EMcycleprec_h h D muest kest)) ! c)) \<and>
         (t2 < length (mats h) \<longrightarrow>
            vecs (fst (imp2matprec_h h D kest t2)) = vecs h \<and>
            (\<forall>a<length (mats h). a \<noteq> t2 \<longrightarrow>
               mats (fst (imp2matprec_h h D kest t2)) ! a = mats h ! a))"
proof -
  obtain h1 r1 where i1: "imp1matprec_h h D muest kest = (h1, r1)"
    by (cases "imp1matprec_h h D muest kest")
  note a = imp1matprec_h_result [OF i1 assms]
  obtain h2 r2 where e: "EMcycleprec_h h D muest kest = (h2, r2)"
    by (cases "EMcycleprec_h h D muest kest")
  note b = EMcycleprec_h_result [OF e assms]
  have c: "vecs (fst (imp2matprec_h h D kest t2)) = vecs h \<and>
            (\<forall>a<length (mats h). a \<noteq> t2 \<longrightarrow>
               mats (fst (imp2matprec_h h D kest t2)) ! a = mats h ! a)"
    if t: "t2 < length (mats h)"
  proof -
    obtain h3 st where i2: "imp2matprec_h h D kest t2 = (h3, st)"
      by (cases "imp2matprec_h h D kest t2")
    from imp2matprec_h_result [OF i2 assms t] i2 show ?thesis by simp
  qed
  have a': "keeps h h1 \<and> (\<forall>a. r1 = Inr a \<longrightarrow>
            a = length (mats h) \<and>
            imp1matprec (mats h ! D) (vecs h ! muest) (mats h ! kest) = Inr (mats h1 ! a))"
    using a by (cases r1) simp_all
  have b': "keeps h h2 \<and> (\<forall>a b c. r2 = Inr (a, b, c) \<longrightarrow>
            length (vecs h) \<le> a \<and> length (mats h) \<le> b \<and> length (mats h) \<le> c \<and>
            EMcycleprec (mats h ! D) (vecs h ! muest) (mats h ! kest)
              = Inr (vecs h2 ! a, mats h2 ! b, mats h2 ! c))"
    using b by (cases r2) auto
  from a' b' c show ?thesis by (simp add: i1 e)
qed

theorem inputs_kept_witness:
  "imp1matprec_h \<lparr>mats = [[[NaN, Fin 1]], [[Fin 2, Fin 1], [Fin 1, Fin 2]]], vecs = [[Fin 0, Fin 0]]\<rparr>
      0 0 1
     = (\<lparr>mats = [[[NaN, Fin 1]], [[Fin 2, Fin 1], [Fin 1, Fin 2]], [[Fin (- 1 / 2), Fin 1]]],
         vecs = [[Fin 0, Fin 0]]\<rparr>, Inr 2) \<and>
   keeps \<lparr>mats = [[[NaN, Fin 1]], [[Fin 2, Fin 1], [Fin 1, Fin 2]]], vecs = [[Fin 0, Fin 0]]\<rparr>
     \<lparr>mats = [[[NaN, Fin 1]], [[Fin 2, Fin 1], [Fin 1, Fin 2]], [[Fin (- 1 / 2), Fin 1]]],
      vecs = [[Fin 0, Fin 0]]\<rparr> \<and>
   imp1matprec [[NaN, Fin 1]] [Fin 0, Fin 0] [[Fin 2, Fin 1], [Fin 1, Fin 2]]
     = Inr [[Fin (- 1 / 2), Fin 1]]"
proof -
  let ?h = "\<lparr>mats = [[[NaN, Fin 1]], [[Fin 2, Fin 1], [Fin 1, Fin 2]]], vecs = [[Fin 0, Fin 0]]\<rparr>"
  let ?h' = "\<lparr>mats = [[[NaN, Fin 1]], [[Fin 2, Fin 1], [Fin 1, Fin 2]], [[Fin (- 1 / 2), Fin 1]]],
         vecs = [[Fin 0, Fin 0]]\<rparr>"
  have h1: "0 < length (mats ?h)" and h2: "1 < length (mats ?h)" by simp_all
  have v: "imp1matprec_h ?h 0 0 1 = (?h', Inr 2)" by code_simp
  note t = inputs_kept [OF h1 h2, of 0 0]
  from t v have k: "keeps ?h ?h'" by simp
  from t v have p: "imp1matprec (mats ?h ! 0) (vecs ?h ! 0) (mats ?h ! 1) = Inr (mats ?h' ! 2)"
    by simp
  then have "imp1matprec [[NaN, Fin 1]] [Fin 0, Fin 0] [[Fin 2, Fin 1], [Fin 1, Fin 2]]
     = Inr [[Fin (- 1 / 2), Fin 1]]"
    by simp
  with v k show ?thesis by blast
qed

text \<open>
  The claim as stated, that no operation changes an argument, fails for \<^verbatim>\<open>imp2matprec\<close>:
  the matrix at the address \<open>t2\<close> is changed in place.
\<close>

theorem imp2matprec_writes_t2_counterexample:
  "imp2matprec_h
      \<lparr>mats = [[[NaN, Fin 1]], [[Fin 2, Fin 1], [Fin 1, Fin 2]], [[Fin 0, Fin 0], [Fin 0, Fin 0]]],
       vecs = []\<rparr> 0 1 2
     = (\<lparr>mats = [[[NaN, Fin 1]], [[Fin 2, Fin 1], [Fin 1, Fin 2]],
                 [[Fin (1 / 2), Fin 0], [Fin 0, Fin 0]], [[NaN, Fin 1]]],
         vecs = []\<rparr>, None)"
  by code_simp

section \<open>Claims about exceptions, for any arithmetic\<close>

text \<open>In exact arithmetic the functions of this section are those of the sections above.\<close>

lemma dsum_a_exact [simp]: "dsum_a exact_arith = dsum"
  by (rule ext) (simp add: dsum_a_def dsum_def exact_arith_def)

lemma dot_a_exact [simp]: "dot_a exact_arith = dot"
  by (intro ext) (simp add: dot_a_def dot_def, simp add: exact_arith_def)

lemma vsub_a_exact [simp]: "vsub_a exact_arith = vsub"
  by (intro ext) (simp add: vsub_a_def vsub_def exact_arith_def)

lemma mv_a_exact [simp]: "mv_a exact_arith = mv"
  by (intro ext) (simp add: mv_a_def mv_def)

lemma vm_a_exact [simp]: "vm_a exact_arith = vm"
  by (intro ext) (simp add: vm_a_def vm_def)

lemma mm_a_exact [simp]: "mm_a exact_arith = mm"
  by (intro ext) (simp add: mm_a_def mm_def)

lemma msub_a_exact [simp]: "msub_a exact_arith = msub"
  by (intro ext) (simp add: msub_a_def msub_def)

lemma outer_a_exact [simp]: "outer_a exact_arith = outer"
  by (intro ext) (simp add: outer_a_def outer_def exact_arith_def)

lemma vdiv_a_exact [simp]: "vdiv_a exact_arith = vdiv"
  by (intro ext) (simp add: vdiv_a_def vdiv_def exact_arith_def)

lemma mdiv_a_exact [simp]: "mdiv_a exact_arith = mdiv"
  by (intro ext) (simp add: mdiv_a_def mdiv_def)

lemma imp1_row_a_exact: "imp1_row_a exact_arith i d muest kest = imp1_row i d muest kest"
  by (simp add: imp1_row_a_def imp1_row_def) (simp add: exact_arith_def)

lemma imp1_loop_a_exact: "imp1_loop_a exact_arith ixs d muest kest = imp1_loop ixs d muest kest"
  by (induction ixs arbitrary: d) (simp_all add: imp1_row_a_exact split: sum.splits)

lemma imp1matprec_a_exact: "imp1matprec_a exact_arith D muest kest = imp1matprec D muest kest"
  by (simp add: imp1matprec_a_def imp1matprec_def imp1_loop_a_exact)

lemma imp2_row_a_exact: "imp2_row_a exact_arith i d kest t2 = imp2_row i d kest t2"
  by (simp add: imp2_row_a_def imp2_row_def) (simp add: exact_arith_def)

lemma imp2_loop_a_exact: "imp2_loop_a exact_arith ixs d kest t2 = imp2_loop ixs d kest t2"
  by (induction ixs arbitrary: t2) (simp_all add: imp2_row_a_exact split: sum.splits)

lemma imp2matprec_a_exact: "imp2matprec_a exact_arith D kest t2 = imp2matprec D kest t2"
  by (simp add: imp2matprec_a_def imp2matprec_def imp2_loop_a_exact)

lemma S_new_a_exact: "S_new_a exact_arith t1 t2 N = S_new t1 t2 N"
  by (simp add: S_new_a_def S_new_def Let_def)

lemma EMcycleprec_a_exact: "EMcycleprec_a exact_arith D muest kest = EMcycleprec D muest kest"
proof -
  have i: "a_inv exact_arith = inv_m" by (simp add: exact_arith_def)
  show ?thesis
    unfolding EMcycleprec_a_def EMcycleprec_def imp1matprec_a_exact imp2matprec_a_exact
    by (intro bind_e_cong refl)
       (simp add: Let_def S_new_a_exact S_new_def i split: prod.splits option.splits)
qed

lemma nll_row_a_exact: "nll_row_a exact_arith i d muest kinv nll = nll_row i d muest kinv nll"
  by (simp add: nll_row_a_def nll_term_a_def nll_row_def log_2pi_a_def log_2pi_def Let_def
      bind_e_assoc)
     (simp add: exact_arith_def)

lemma nll_loop_a_exact: "nll_loop_a exact_arith ixs d muest kinv nll = nll_loop ixs d muest kinv nll"
  by (induction ixs arbitrary: nll) (simp_all add: nll_row_a_exact split: sum.splits)

lemma nllprec_a_exact: "nllprec_a exact_arith d muest kest = nllprec d muest kest"
  by (simp add: nllprec_a_def nllprec_def nll_loop_a_exact) (simp add: exact_arith_def)

lemma length_vsub_a [simp]: "length (vsub_a A u v) = min (length u) (length v)"
  by (simp add: vsub_a_def)

lemma length_mv_a [simp]: "length (mv_a A M v) = length M"
  by (simp add: mv_a_def)

lemma length_mm_a [simp]: "length (mm_a A M B) = length M"
  by (simp add: mm_a_def)

lemma is_mat_upd_rows:
  assumes "is_mat M n p" and "distinct ri" and "\<forall>r\<in>set ri. r < n" and "length X = length ri"
  shows "is_mat (upd_rows f M ri ci X) n p"
proof -
  from assms(1) have l: "length M = n" by (rule is_mat_length)
  have c: "upd_rows f M ri ci X =
         map (\<lambda>r. if r \<in> set ri then upd_cols f (M ! r) ci (X ! pos ri r) else M ! r) [0..<length M]"
    using assms(2,3,4) l by (intro upd_rows_closed) simp_all
  have "length (upd_rows f M ri ci X ! r) = p" if "r < n" for r
    using that l assms(1) by (simp add: c is_mat_row)
  with l show ?thesis by (simp add: is_mat_def list_all_length)
qed

lemma is_mat_block: "is_mat (block K ixs) (length ixs) (length ixs)"
  by (simp add: block_def is_mat_def list_all_iff)

lemma submat_block:
  assumes "is_mat K p p" and "\<forall>i\<in>set ixs. i < p"
  shows "submat K ixs ixs = Inr (block K ixs)"
  using submat_valid [OF assms(1,2,2)] by (simp add: block_def)

lemma inv_ok_block:
  assumes "inv_ok f"
  shows "raises f K ixs \<or> (\<exists>X. f (block K ixs) = Inr X \<and> is_mat X (length ixs) (length ixs))"
proof (cases "f (block K ixs)")
  case (Inl e)
  with assms is_mat_block [of K ixs] have "e = runtime_error"
    unfolding inv_ok_def by (metis sum.simps(5))
  with Inl show ?thesis by (simp add: raises_def)
next
  case (Inr X)
  with assms is_mat_block [of K ixs] have "is_mat X (length ixs) (length ixs)"
    unfolding inv_ok_def by (metis sum.simps(6))
  with Inr show ?thesis by simp
qed

lemma raises_not_Inr: "raises f K ixs \<Longrightarrow> f (block K ixs) = Inr X \<Longrightarrow> False"
  by (simp add: raises_def)

lemma rejects_mm_iff:
  "rejects_mm f D K \<longleftrightarrow> (\<exists>i<length D. raises f K (find_nonfinite (D ! i)))"
  unfolding rejects_mm_def list_ex_iff by (metis in_set_conv_nth)

lemma rejects_oo_iff:
  "rejects_oo f D S \<longleftrightarrow> (\<exists>i<length D. raises f S (find_finite (D ! i)))"
  unfolding rejects_oo_def list_ex_iff by (metis in_set_conv_nth)

text \<open>One row of \<^verbatim>\<open>imp1matprec\<close>: it fails if the inverse raises, and else writes row \<open>i\<close>.\<close>

lemma imp1_row_a_step:
  assumes ok: "inv_ok (a_inv_p A)" and d: "is_mat d N P" and i: "i < N"
    and mu: "length muest = P" and K: "is_mat kest P P"
  shows "(raises (a_inv_p A) kest (find_nonfinite (d ! i)) \<and>
            imp1_row_a A i d muest kest = Inl runtime_error) \<or>
         (\<not> raises (a_inv_p A) kest (find_nonfinite (d ! i)) \<and>
            (\<exists>d'. imp1_row_a A i d muest kest = Inr d' \<and> is_mat d' N P \<and>
                  (\<forall>j. j \<noteq> i \<longrightarrow> d' ! j = d ! j)))"
proof -
  let ?io = "find_finite (d ! i)" and ?im = "find_nonfinite (d ! i)"
  from d i have li: "length (d ! i) = P" by (rule is_mat_row)
  from d have ld: "length d = N" by (rule is_mat_length)
  from i have "0 < N" by simp
  with d have nc: "n_cols d = P" by (rule is_mat_n_cols)
  have bm: "\<forall>j\<in>set ?im. j < P" and bo: "\<forall>j\<in>set ?io. j < P"
    using li by (simp_all add: set_find_nonfinite set_find_finite)
  have e1: "elem muest ?im = Inr (map (\<lambda>j. muest ! j) ?im)"
    using bm mu by (simp add: elem_eq_Inr)
  have e2: "elem muest ?io = Inr (map (\<lambda>j. muest ! j) ?io)"
    using bo mu by (simp add: elem_eq_Inr)
  note s1 = submat_block [OF K bm]
  note s2 = submat_valid [OF K bm bo]
  have s3: "submat d [i] ?io = Inr [map (\<lambda>c. d ! i ! c) ?io]"
    using i ld nc bo by (simp add: submat_eq_Inr n_rows_def)
  from inv_ok_block [OF ok, of kest ?im] show ?thesis
  proof
    assume r: "raises (a_inv_p A) kest ?im"
    then have "imp1_row_a A i d muest kest = Inl runtime_error"
      by (simp add: imp1_row_a_def Let_def e1 s1 raises_def)
    with r show ?thesis by simp
  next
    assume "\<exists>X. a_inv_p A (block kest ?im) = Inr X \<and> is_mat X (length ?im) (length ?im)"
    then obtain X where X: "a_inv_p A (block kest ?im) = Inr X"
      and mX: "is_mat X (length ?im) (length ?im)" by blast
    from mX have lX: "length X = length ?im" by (rule is_mat_length)
    let ?v = "vsub_a A (map (\<lambda>j. muest ! j) ?im)
                (mv_a A (mm_a A X (map (\<lambda>r. map (\<lambda>c. kest ! r ! c) ?io) ?im))
                   (vsub_a A (colvec_of [map (\<lambda>c. d ! i ! c) ?io]) (map (\<lambda>j. muest ! j) ?io)))"
    let ?d' = "upd_rows (\<lambda>old new. new) d [i] ?im (rowmat_of ?v)"
    have lv: "length ?v = length ?im" using lX by simp
    have u: "submat_update (\<lambda>old new. new) d [i] ?im (rowmat_of ?v) = Inr ?d'"
      using i ld nc bm lv by (simp add: submat_update_eq_Inr n_rows_def rowmat_of_def)
    have r: "imp1_row_a A i d muest kest = Inr ?d'"
      by (simp add: imp1_row_a_def Let_def e1 e2 s1 s2 s3 X u)
    have m: "is_mat ?d' N P"
      using d i by (intro is_mat_upd_rows) (simp_all add: rowmat_of_def)
    have o: "\<forall>j. j \<noteq> i \<longrightarrow> ?d' ! j = d ! j"
      by (simp add: upd_rows_other)
    have "\<not> raises (a_inv_p A) kest ?im" using X by (simp add: raises_def)
    with r m o show ?thesis by blast
  qed
qed

lemma imp1_loop_a_fails:
  assumes ok: "inv_ok (a_inv_p A)" and mu: "length muest = P" and K: "is_mat kest P P"
    and d: "is_mat d N P" and ixs: "distinct ixs" "\<forall>i\<in>set ixs. i < N"
  shows "((\<exists>i\<in>set ixs. raises (a_inv_p A) kest (find_nonfinite (d ! i))) \<longrightarrow>
            imp1_loop_a A ixs d muest kest = Inl runtime_error) \<and>
         (\<not> (\<exists>i\<in>set ixs. raises (a_inv_p A) kest (find_nonfinite (d ! i))) \<longrightarrow>
            (\<exists>d'. imp1_loop_a A ixs d muest kest = Inr d' \<and> is_mat d' N P))"
  using d ixs
proof (induction ixs arbitrary: d)
  case Nil
  then show ?case by simp
next
  case (Cons i ixs)
  from Cons.prems have i: "i < N" and ni: "i \<notin> set ixs" and dist: "distinct ixs"
    and rest: "\<forall>j\<in>set ixs. j < N" by simp_all
  from imp1_row_a_step [OF ok Cons.prems(1) i mu K] show ?case
  proof (elim disjE conjE exE)
    assume "raises (a_inv_p A) kest (find_nonfinite (d ! i))"
      and "imp1_row_a A i d muest kest = Inl runtime_error"
    then show ?thesis by simp
  next
    fix d'
    assume nr: "\<not> raises (a_inv_p A) kest (find_nonfinite (d ! i))"
      and r: "imp1_row_a A i d muest kest = Inr d'" and m: "is_mat d' N P"
      and o: "\<forall>j. j \<noteq> i \<longrightarrow> d' ! j = d ! j"
    from o ni have same: "d' ! j = d ! j" if "j \<in> set ixs" for j
      using that by (metis)
    then have eq: "(\<exists>j\<in>set ixs. raises (a_inv_p A) kest (find_nonfinite (d' ! j))) \<longleftrightarrow>
                   (\<exists>j\<in>set ixs. raises (a_inv_p A) kest (find_nonfinite (d ! j)))"
      by simp
    from Cons.IH [OF m dist rest] r nr eq show ?thesis by simp
  qed
qed

lemma imp1matprec_a_fails:
  assumes "inv_ok (a_inv_p A)" and "is_mat D N P" and "length muest = P" and "is_mat kest P P"
  shows "(rejects_mm (a_inv_p A) D kest \<longrightarrow> imp1matprec_a A D muest kest = Inl runtime_error) \<and>
         (\<not> rejects_mm (a_inv_p A) D kest \<longrightarrow>
            (\<exists>C. imp1matprec_a A D muest kest = Inr C \<and> is_mat C N P))"
proof -
  from assms(2) have l: "length D = N" by (rule is_mat_length)
  have r: "rejects_mm (a_inv_p A) D kest \<longleftrightarrow>
           (\<exists>i\<in>set [0..<N]. raises (a_inv_p A) kest (find_nonfinite (D ! i)))"
    using l by (auto simp: rejects_mm_iff)
  have "distinct [0..<N]" and "\<forall>i\<in>set [0..<N]. i < N" by simp_all
  from imp1_loop_a_fails [OF assms(1,3,4,2) this] show ?thesis
    unfolding r by (simp add: imp1matprec_a_def n_rows_def l)
qed

text \<open>One row of \<^verbatim>\<open>imp2matprec\<close>.\<close>

lemma imp2_row_a_step:
  assumes ok: "inv_ok (a_inv A)" and t: "is_mat t2 P P" and K: "is_mat kest P P"
    and x: "length (d ! i) \<le> P"
  shows "(\<exists>e. a_inv A (block kest (find_nonfinite (d ! i))) = Inl e \<and> e = runtime_error \<and>
              imp2_row_a A i d kest t2 = Inl e) \<or>
         (\<exists>X t2'. a_inv A (block kest (find_nonfinite (d ! i))) = Inr X \<and>
              imp2_row_a A i d kest t2 = Inr t2' \<and> is_mat t2' P P)"
proof -
  let ?im = "find_nonfinite (d ! i)"
  have bm: "\<forall>j\<in>set ?im. j < P"
    using x by (auto simp: set_find_nonfinite)
  note s1 = submat_block [OF K bm]
  from t have lt: "length t2 = P" by (rule is_mat_length)
  have nc: "\<forall>j\<in>set ?im. j < n_cols t2"
  proof
    fix j assume "j \<in> set ?im"
    with bm have j: "j < P" by simp
    then have "0 < P" by simp
    with t have "n_cols t2 = P" by (rule is_mat_n_cols)
    with j show "j < n_cols t2" by simp
  qed
  from inv_ok_block [OF ok, of kest ?im] show ?thesis
  proof
    assume "raises (a_inv A) kest ?im"
    then show ?thesis by (simp add: imp2_row_a_def Let_def s1 raises_def)
  next
    assume "\<exists>X. a_inv A (block kest ?im) = Inr X \<and> is_mat X (length ?im) (length ?im)"
    then obtain X where X: "a_inv A (block kest ?im) = Inr X"
      and mX: "is_mat X (length ?im) (length ?im)" by blast
    from mX have lX: "length X = length ?im" by (rule is_mat_length)
    from mX have rX: "\<forall>xs\<in>set X. length xs = length ?im" by (rule is_mat_rows)
    let ?t = "upd_rows (a_add A) t2 ?im ?im X"
    have u: "submat_update (a_add A) t2 ?im ?im X = Inr ?t"
      using bm nc lt lX rX by (simp add: submat_update_eq_Inr n_rows_def)
    have m: "is_mat ?t P P"
      using t distinct_find_nonfinite bm lX by (rule is_mat_upd_rows)
    from X u m show ?thesis by (simp add: imp2_row_a_def Let_def s1)
  qed
qed

lemma imp2_loop_a_fails:
  assumes ok: "inv_ok (a_inv A)" and K: "is_mat kest P P"
    and t: "is_mat t2 P P" and x: "\<forall>i\<in>set ixs. length (d ! i) \<le> P"
  shows "fst (imp2_loop_a A ixs d kest t2) =
           (if \<exists>i\<in>set ixs. raises (a_inv A) kest (find_nonfinite (d ! i))
            then Some runtime_error else None) \<and>
         is_mat (snd (imp2_loop_a A ixs d kest t2)) P P"
  using t x
proof (induction ixs arbitrary: t2)
  case Nil
  then show ?case by simp
next
  case (Cons i ixs)
  from Cons.prems have li: "length (d ! i) \<le> P" and rest: "\<forall>j\<in>set ixs. length (d ! j) \<le> P"
    by simp_all
  from imp2_row_a_step [OF ok Cons.prems(1) K li] show ?case
  proof (elim disjE exE conjE)
    fix e
    assume "a_inv A (block kest (find_nonfinite (d ! i))) = Inl e" and "e = runtime_error"
      and "imp2_row_a A i d kest t2 = Inl e"
    with Cons.prems(1) show ?thesis by (simp add: raises_def)
  next
    fix X t2'
    assume X: "a_inv A (block kest (find_nonfinite (d ! i))) = Inr X"
      and r: "imp2_row_a A i d kest t2 = Inr t2'" and m: "is_mat t2' P P"
    from X have "\<not> raises (a_inv A) kest (find_nonfinite (d ! i))" by (simp add: raises_def)
    with Cons.IH [OF m rest] r show ?thesis by simp
  qed
qed

lemma imp2_loop_a_fail_state:
  assumes ok: "inv_ok (a_inv A)" and K: "is_mat kest P P"
    and t: "is_mat t2 P P" and x: "\<forall>i\<in>set ixs. length (d ! i) \<le> P"
    and f: "imp2_loop_a A ixs d kest t2 = (Some e, t2')"
  shows "\<exists>k<length ixs. a_inv A (block kest (find_nonfinite (d ! (ixs ! k)))) = Inl e \<and>
           imp2_loop_a A (take k ixs) d kest t2 = (None, t2')"
  using t x f
proof (induction ixs arbitrary: t2)
  case Nil
  then show ?case by simp
next
  case (Cons i ixs)
  from Cons.prems have li: "length (d ! i) \<le> P" and rest: "\<forall>j\<in>set ixs. length (d ! j) \<le> P"
    by simp_all
  from imp2_row_a_step [OF ok Cons.prems(1) K li] show ?case
  proof (elim disjE exE conjE)
    fix e'
    assume i: "a_inv A (block kest (find_nonfinite (d ! i))) = Inl e'"
      and r: "imp2_row_a A i d kest t2 = Inl e'"
    with Cons.prems(3) have "e' = e" and "t2' = t2" by simp_all
    with i have "0 < length (i # ixs) \<and>
          a_inv A (block kest (find_nonfinite (d ! ((i # ixs) ! 0)))) = Inl e \<and>
          imp2_loop_a A (take 0 (i # ixs)) d kest t2 = (None, t2')"
      by simp
    then show ?thesis by blast
  next
    fix X t
    assume X: "a_inv A (block kest (find_nonfinite (d ! i))) = Inr X"
      and r: "imp2_row_a A i d kest t2 = Inr t" and m: "is_mat t P P"
    from r Cons.prems(3) have "imp2_loop_a A ixs d kest t = (Some e, t2')" by simp
    from Cons.IH [OF m rest this] obtain k where k: "k < length ixs"
      and f: "a_inv A (block kest (find_nonfinite (d ! (ixs ! k)))) = Inl e"
      and p: "imp2_loop_a A (take k ixs) d kest t = (None, t2')"
      by blast
    from k f p r
    have "Suc k < length (i # ixs) \<and>
          a_inv A (block kest (find_nonfinite (d ! ((i # ixs) ! Suc k)))) = Inl e \<and>
          imp2_loop_a A (take (Suc k) (i # ixs)) d kest t2 = (None, t2')"
      by simp
    then show ?thesis by blast
  qed
qed

lemma imp2_loop_a_same_rows:
  assumes "\<forall>i\<in>set ixs. d' ! i = d ! i"
  shows "imp2_loop_a A ixs d' kest t2 = imp2_loop_a A ixs d kest t2"
  using assms
  by (induction ixs arbitrary: t2) (simp_all add: imp2_row_a_def split: sum.splits)

lemma imp2matprec_a_fails:
  assumes "inv_ok (a_inv A)" and "is_mat D N P" and "is_mat kest P P" and "is_mat t2 P P"
  shows "fst (imp2matprec_a A D kest t2) =
           (if rejects_mm (a_inv A) D kest then Some runtime_error else None) \<and>
         is_mat (snd (imp2matprec_a A D kest t2)) P P"
proof -
  from assms(2) have l: "length D = N" by (rule is_mat_length)
  have r: "rejects_mm (a_inv A) D kest \<longleftrightarrow>
           (\<exists>i\<in>set [0..<N]. raises (a_inv A) kest (find_nonfinite (D ! i)))"
    using l by (auto simp: rejects_mm_iff)
  have b: "\<forall>i\<in>set [0..<N]. length (D ! i) \<le> P"
    using assms(2) by (simp add: is_mat_row)
  from imp2_loop_a_fails [OF assms(1,3,4) b] show ?thesis
    unfolding r by (simp add: imp2matprec_a_def n_rows_def l)
qed

lemma imp2matprec_a_fail_state:
  assumes "inv_ok (a_inv A)" and "is_mat D N P" and "is_mat kest P P" and "is_mat t2 P P"
    and "imp2matprec_a A D kest t2 = (Some e, t2')"
  shows "\<exists>k<N. a_inv A (block kest (find_nonfinite (D ! k))) = Inl e \<and>
               imp2matprec_a A (take k D) kest t2 = (None, t2')"
proof -
  from assms(2) have l: "length D = N" by (rule is_mat_length)
  have b: "\<forall>i\<in>set [0..<N]. length (D ! i) \<le> P"
    using assms(2) by (simp add: is_mat_row)
  from assms(5) l have "imp2_loop_a A [0..<N] D kest t2 = (Some e, t2')"
    by (simp add: imp2matprec_a_def n_rows_def)
  from imp2_loop_a_fail_state [OF assms(1,3,4) b this] obtain k where k: "k < N"
    and f: "a_inv A (block kest (find_nonfinite (D ! k))) = Inl e"
    and p: "imp2_loop_a A [0..<k] D kest t2 = (None, t2')"
    by (auto simp: take_upt)
  have "imp2_loop_a A [0..<k] (take k D) kest t2 = imp2_loop_a A [0..<k] D kest t2"
    by (rule imp2_loop_a_same_rows) simp
  with p k l have "imp2matprec_a A (take k D) kest t2 = (None, t2')"
    by (simp add: imp2matprec_a_def n_rows_def min_def)
  with k f show ?thesis by blast
qed

text \<open>One row of \<^verbatim>\<open>nllprec\<close>.\<close>

lemma nll_term_a_step:
  assumes ok: "inv_ok (a_inv_p A)" and d: "is_mat d N P" and i: "i < N"
    and mu: "length muest = P" and S: "is_mat kinv P P"
  shows "(raises (a_inv_p A) kinv (find_finite (d ! i)) \<and>
            nll_term_a A i d muest kinv = Inl runtime_error) \<or>
         (\<not> raises (a_inv_p A) kinv (find_finite (d ! i)) \<and>
            (\<exists>t. nll_term_a A i d muest kinv = Inr t))"
proof -
  let ?io = "find_finite (d ! i)"
  from d i have li: "length (d ! i) = P" by (rule is_mat_row)
  from d have ld: "length d = N" by (rule is_mat_length)
  from i have "0 < N" by simp
  with d have nc: "n_cols d = P" by (rule is_mat_n_cols)
  have bo: "\<forall>j\<in>set ?io. j < P"
    using li by (simp add: set_find_finite)
  have e2: "elem muest ?io = Inr (map (\<lambda>j. muest ! j) ?io)"
    using bo mu by (simp add: elem_eq_Inr)
  note s1 = submat_block [OF S bo]
  have s3: "submat d [i] ?io = Inr [map (\<lambda>c. d ! i ! c) ?io]"
    using i ld nc bo by (simp add: submat_eq_Inr n_rows_def)
  from inv_ok_block [OF ok, of kinv ?io] show ?thesis
  proof
    assume r: "raises (a_inv_p A) kinv ?io"
    then have "nll_term_a A i d muest kinv = Inl runtime_error"
      by (simp add: nll_term_a_def Let_def e2 s1 s3 raises_def)
    with r show ?thesis by simp
  next
    assume "\<exists>X. a_inv_p A (block kinv ?io) = Inr X \<and> is_mat X (length ?io) (length ?io)"
    then obtain X where X: "a_inv_p A (block kinv ?io) = Inr X" by blast
    then have "\<exists>t. nll_term_a A i d muest kinv = Inr t"
      by (simp add: nll_term_a_def Let_def e2 s1 s3)
    moreover have "\<not> raises (a_inv_p A) kinv ?io" using X by (simp add: raises_def)
    ultimately show ?thesis by simp
  qed
qed

lemma nll_loop_a_fails:
  assumes ok: "inv_ok (a_inv_p A)" and d: "is_mat d N P"
    and mu: "length muest = P" and S: "is_mat kinv P P" and ixs: "\<forall>i\<in>set ixs. i < N"
  shows "((\<exists>i\<in>set ixs. raises (a_inv_p A) kinv (find_finite (d ! i))) \<longrightarrow>
            nll_loop_a A ixs d muest kinv nll = Inl runtime_error) \<and>
         (\<not> (\<exists>i\<in>set ixs. raises (a_inv_p A) kinv (find_finite (d ! i))) \<longrightarrow>
            (\<exists>v. nll_loop_a A ixs d muest kinv nll = Inr v))"
  using ixs
proof (induction ixs arbitrary: nll)
  case Nil
  then show ?case by simp
next
  case (Cons i ixs)
  then have i: "i < N" and rest: "\<forall>j\<in>set ixs. j < N" by simp_all
  from nll_term_a_step [OF ok d i mu S] show ?case
  proof (elim disjE conjE exE)
    assume "raises (a_inv_p A) kinv (find_finite (d ! i))"
      and "nll_term_a A i d muest kinv = Inl runtime_error"
    then show ?thesis by (simp add: nll_row_a_def)
  next
    fix t
    assume nr: "\<not> raises (a_inv_p A) kinv (find_finite (d ! i))"
      and r: "nll_term_a A i d muest kinv = Inr t"
    from Cons.IH [OF rest, of "a_add A nll t"] r nr show ?thesis
      by (simp add: nll_row_a_def)
  qed
qed

lemma nllprec_a_fails:
  assumes "lib_ok A" and "is_mat D N P" and "length muest = P" and "is_mat kest P P"
  shows "(a_inv A kest = Inl runtime_error \<longrightarrow> nllprec_a A D muest kest = Inl runtime_error) \<and>
         (\<forall>S. a_inv A kest = Inr S \<longrightarrow>
            (rejects_oo (a_inv_p A) D S \<longrightarrow> nllprec_a A D muest kest = Inl runtime_error) \<and>
            (\<not> rejects_oo (a_inv_p A) D S \<longrightarrow> (\<exists>v. nllprec_a A D muest kest = Inr v))) \<and>
         (a_inv A kest = Inl runtime_error \<or> (\<exists>S. a_inv A kest = Inr S))"
proof -
  from assms(1) have ok: "inv_ok (a_inv A)" and okp: "inv_ok (a_inv_p A)"
    by (simp_all add: lib_ok_def)
  from assms(2) have l: "length D = N" by (rule is_mat_length)
  have a: "nllprec_a A D muest kest = Inl runtime_error" if "a_inv A kest = Inl runtime_error"
    using that by (simp add: nllprec_a_def)
  have b: "(rejects_oo (a_inv_p A) D S \<longrightarrow> nllprec_a A D muest kest = Inl runtime_error) \<and>
           (\<not> rejects_oo (a_inv_p A) D S \<longrightarrow> (\<exists>v. nllprec_a A D muest kest = Inr v))"
    if S: "a_inv A kest = Inr S" for S
  proof -
    from ok assms(4) S have m: "is_mat S P P"
      unfolding inv_ok_def by (metis sum.simps(6))
    have r: "rejects_oo (a_inv_p A) D S \<longleftrightarrow>
           (\<exists>i\<in>set [0..<N]. raises (a_inv_p A) S (find_finite (D ! i)))"
      using l by (auto simp: rejects_oo_iff)
    have "\<forall>i\<in>set [0..<N]. i < N" by simp
    from nll_loop_a_fails [OF okp assms(2,3) m this, of "Fin 0"] show ?thesis
      unfolding r by (simp add: nllprec_a_def S n_rows_def l)
  qed
  have c: "a_inv A kest = Inl runtime_error \<or> (\<exists>S. a_inv A kest = Inr S)"
  proof (cases "a_inv A kest")
    case (Inl e)
    with ok assms(4) have "e = runtime_error"
      unfolding inv_ok_def by (metis sum.simps(5))
    with Inl show ?thesis by simp
  next
    case (Inr S)
    then show ?thesis by simp
  qed
  from a b c show ?thesis by blast
qed

lemma length_trans_m [simp]: "length (trans_m M) = n_cols M"
  by (simp add: trans_m_def)

lemma is_mat_mm_a_trans:
  "is_mat (mm_a A (trans_m C) C) (n_cols C) (n_cols C)"
  by (simp add: is_mat_def mm_a_def vm_a_def list_all_iff)

lemma is_mat_S_new_a:
  assumes "is_mat T2 p p" and "length T1 = p"
  shows "is_mat (S_new_a A T1 T2 N) p p"
proof -
  let ?A = "mdiv_a A T2 (Fin (real N))"
  let ?B = "outer_a A (vdiv_a A T1 (Fin (real N))) (vdiv_a A T1 (Fin (real N)))"
  from assms have lA: "length ?A = p" and lB: "length ?B = p"
    by (simp_all add: mdiv_a_def outer_a_def vdiv_a_def is_mat_def)
  have rA: "length (?A ! i) = p" if "i < p" for i
    using assms(1) that by (simp add: mdiv_a_def vdiv_a_def is_mat_def list_all_length)
  have rB: "length (?B ! i) = p" if "i < p" for i
    using assms(2) that by (simp add: outer_a_def vdiv_a_def)
  have l: "length (S_new_a A T1 T2 N) = p"
    using lA lB by (simp add: S_new_a_def msub_a_def)
  have "length (S_new_a A T1 T2 N ! i) = p" if "i < p" for i
    using that lA lB rA rB by (simp add: S_new_a_def msub_a_def)
  with l show ?thesis by (simp add: is_mat_def list_all_length)
qed

lemma inv_ok_cases:
  assumes "inv_ok f" and "is_mat M n n"
  shows "f M = Inl runtime_error \<or> (\<exists>X. f M = Inr X \<and> is_mat X n n)"
proof (cases "f M")
  case (Inl e)
  with assms have "e = runtime_error"
    unfolding inv_ok_def by (metis sum.simps(5))
  with Inl show ?thesis by simp
next
  case (Inr X)
  with assms have "is_mat X n n"
    unfolding inv_ok_def by (metis sum.simps(6))
  with Inr show ?thesis by simp
qed

lemma EMcycleprec_a_fails:
  assumes ok: "lib_ok A" and D: "is_mat D N P" and N: "0 < N"
    and mu: "length muest = P" and K: "is_mat kest P P"
  shows "(rejects_mm (a_inv_p A) D kest \<longrightarrow> EMcycleprec_a A D muest kest = Inl runtime_error) \<and>
         (\<not> rejects_mm (a_inv_p A) D kest \<longrightarrow>
            (\<exists>C. imp1matprec_a A D muest kest = Inr C \<and>
               (rejects_mm (a_inv A) D kest \<longrightarrow>
                  EMcycleprec_a A D muest kest = Inl runtime_error) \<and>
               (\<not> rejects_mm (a_inv A) D kest \<longrightarrow>
                  (\<exists>T2. imp2matprec_a A D kest (mm_a A (trans_m C) C) = (None, T2) \<and>
                     EMcycleprec_a A D muest kest =
                       bind_e (a_inv A (S_new_a A (mv_a A (trans_m C) (ones N)) T2 N))
                         (\<lambda>newK. Inr (vdiv_a A (mv_a A (trans_m C) (ones N)) (Fin (real N)),
                                      S_new_a A (mv_a A (trans_m C) (ones N)) T2 N, newK)) \<and>
                     (a_inv A (S_new_a A (mv_a A (trans_m C) (ones N)) T2 N) = Inl runtime_error \<or>
                      (\<exists>X. a_inv A (S_new_a A (mv_a A (trans_m C) (ones N)) T2 N) = Inr X))))))"
proof -
  from ok have oki: "inv_ok (a_inv A)" and okp: "inv_ok (a_inv_p A)"
    by (simp_all add: lib_ok_def)
  note i1 = imp1matprec_a_fails [OF okp D mu K]
  have a: "EMcycleprec_a A D muest kest = Inl runtime_error" if "rejects_mm (a_inv_p A) D kest"
    using that i1 by (simp add: EMcycleprec_a_def)
  have b: "\<exists>C. imp1matprec_a A D muest kest = Inr C \<and>
               (rejects_mm (a_inv A) D kest \<longrightarrow>
                  EMcycleprec_a A D muest kest = Inl runtime_error) \<and>
               (\<not> rejects_mm (a_inv A) D kest \<longrightarrow>
                  (\<exists>T2. imp2matprec_a A D kest (mm_a A (trans_m C) C) = (None, T2) \<and>
                     EMcycleprec_a A D muest kest =
                       bind_e (a_inv A (S_new_a A (mv_a A (trans_m C) (ones N)) T2 N))
                         (\<lambda>newK. Inr (vdiv_a A (mv_a A (trans_m C) (ones N)) (Fin (real N)),
                                      S_new_a A (mv_a A (trans_m C) (ones N)) T2 N, newK)) \<and>
                     (a_inv A (S_new_a A (mv_a A (trans_m C) (ones N)) T2 N) = Inl runtime_error \<or>
                      (\<exists>X. a_inv A (S_new_a A (mv_a A (trans_m C) (ones N)) T2 N) = Inr X))))"
    if nr: "\<not> rejects_mm (a_inv_p A) D kest"
  proof -
    from nr i1 obtain C where C: "imp1matprec_a A D muest kest = Inr C" and mC: "is_mat C N P"
      by blast
    from mC N have nc: "n_cols C = P" by (rule is_mat_n_cols)
    from mC have nr: "n_rows C = N" by (simp add: n_rows_def is_mat_length)
    let ?g = "mm_a A (trans_m C) C"
    let ?t1 = "mv_a A (trans_m C) (ones N)"
    have g: "is_mat ?g P P" using is_mat_mm_a_trans [of A C] nc by simp
    note i2 = imp2matprec_a_fails [OF oki D K g]
    obtain st T2 where p: "imp2matprec_a A D kest ?g = (st, T2)"
      by (cases "imp2matprec_a A D kest ?g")
    with i2 have st: "st = (if rejects_mm (a_inv A) D kest then Some runtime_error else None)"
      and mT: "is_mat T2 P P" by simp_all
    have c: "EMcycleprec_a A D muest kest = Inl runtime_error" if "rejects_mm (a_inv A) D kest"
      using that st p by (simp add: EMcycleprec_a_def C nr)
    have e: "EMcycleprec_a A D muest kest =
                       bind_e (a_inv A (S_new_a A ?t1 T2 N))
                         (\<lambda>newK. Inr (vdiv_a A ?t1 (Fin (real N)), S_new_a A ?t1 T2 N, newK))"
      if "\<not> rejects_mm (a_inv A) D kest"
      using that st p by (simp add: EMcycleprec_a_def C nr Let_def)
    have "is_mat (S_new_a A ?t1 T2 N) P P"
      using mT nc by (intro is_mat_S_new_a) simp_all
    with oki have f: "a_inv A (S_new_a A ?t1 T2 N) = Inl runtime_error \<or>
                      (\<exists>X. a_inv A (S_new_a A ?t1 T2 N) = Inr X)"
      using inv_ok_cases by blast
    from st p have "imp2matprec_a A D kest ?g = (None, T2)" if "\<not> rejects_mm (a_inv A) D kest"
      using that by simp
    with C c e f show ?thesis by blast
  qed
  from a b show ?thesis by blast
qed

lemma inv_ok_inv_m: "inv_ok inv_m"
  unfolding inv_ok_def
proof (intro allI impI)
  fix M n
  assume m: "is_mat M n n"
  then have l: "length M = n" by (rule is_mat_length)
  show "case inv_m M of Inl e \<Rightarrow> e = runtime_error | Inr X \<Rightarrow> is_mat X n n"
  proof (cases "inv_m M")
    case (Inl e)
    with inv_m_square [OF is_mat_square [OF m]] show ?thesis
      by (simp split: if_splits)
  next
    case (Inr X)
    with inv_m_is_mat [OF Inr] l show ?thesis by simp
  qed
qed

lemma lib_ok_exact: "lib_ok exact_arith"
  by (simp add: lib_ok_def exact_arith_def inv_ok_inv_m)

text \<open>
  Claim C5, amended. The source inverts with \<^verbatim>\<open>inv\<close> and tests nothing itself, in
  particular not whether \<open>kest\<close> is positive definite: a call ends in
  \<^verbatim>\<open>std::runtime_error\<close> exactly when one of its calls of \<^verbatim>\<open>inv\<close> raises, whatever the
  arithmetic and whatever the test by which the library decides to raise. With \<open>D\<close> of
  shape \<open>N \<times> P\<close>, \<open>muest\<close> of length \<open>P\<close>, \<open>kest\<close> and \<open>t2\<close> of shape \<open>P \<times> P\<close>, the calls of
  \<^verbatim>\<open>inv\<close> are: on the block \<open>K\<^sub>m\<^sub>m\<close> of every row for \<^verbatim>\<open>imp1matprec\<close> and \<^verbatim>\<open>imp2matprec\<close>;
  these and then the new covariance for \<^verbatim>\<open>EMcycleprec\<close>; \<open>kest\<close> and then the block \<open>S\<^sub>o\<^sub>o\<close>
  of every row for \<^verbatim>\<open>nllprec\<close>. \<^verbatim>\<open>imp1matprec\<close>, \<^verbatim>\<open>EMcycleprec\<close> and \<^verbatim>\<open>nllprec\<close> return nothing
  when they fail; \<^verbatim>\<open>imp2matprec\<close> has then added to \<open>t2\<close> the corrections of the rows
  before the failing one.
\<close>

theorem runtime_error_iff_inv_raises:
  assumes "lib_ok A" and "is_mat D N P" and "length muest = P" and "is_mat kest P P"
    and "is_mat t2 P P"
  shows "((rejects_mm (a_inv_p A) D kest \<longrightarrow> imp1matprec_a A D muest kest = Inl runtime_error) \<and>
          (\<not> rejects_mm (a_inv_p A) D kest \<longrightarrow> (\<exists>C. imp1matprec_a A D muest kest = Inr C))) \<and>
         (fst (imp2matprec_a A D kest t2) =
            (if rejects_mm (a_inv A) D kest then Some runtime_error else None) \<and>
          (\<forall>e t2'. imp2matprec_a A D kest t2 = (Some e, t2') \<longrightarrow>
             (\<exists>k<N. a_inv A (block kest (find_nonfinite (D ! k))) = Inl e \<and>
                    imp2matprec_a A (take k D) kest t2 = (None, t2')))) \<and>
         (0 < N \<longrightarrow>
            (rejects_mm (a_inv_p A) D kest \<longrightarrow>
               EMcycleprec_a A D muest kest = Inl runtime_error) \<and>
            (\<not> rejects_mm (a_inv_p A) D kest \<longrightarrow>
               (\<exists>C. imp1matprec_a A D muest kest = Inr C \<and>
                  (rejects_mm (a_inv A) D kest \<longrightarrow>
                     EMcycleprec_a A D muest kest = Inl runtime_error) \<and>
                  (\<not> rejects_mm (a_inv A) D kest \<longrightarrow>
                     (\<exists>T2. imp2matprec_a A D kest (mm_a A (trans_m C) C) = (None, T2) \<and>
                        EMcycleprec_a A D muest kest =
                          bind_e (a_inv A (S_new_a A (mv_a A (trans_m C) (ones N)) T2 N))
                            (\<lambda>newK. Inr (vdiv_a A (mv_a A (trans_m C) (ones N)) (Fin (real N)),
                                         S_new_a A (mv_a A (trans_m C) (ones N)) T2 N, newK)) \<and>
                        (a_inv A (S_new_a A (mv_a A (trans_m C) (ones N)) T2 N)
                           = Inl runtime_error \<or>
                         (\<exists>X. a_inv A (S_new_a A (mv_a A (trans_m C) (ones N)) T2 N)
                           = Inr X))))))) \<and>
         ((a_inv A kest = Inl runtime_error \<longrightarrow>
             nllprec_a A D muest kest = Inl runtime_error) \<and>
          (\<forall>S. a_inv A kest = Inr S \<longrightarrow>
             (rejects_oo (a_inv_p A) D S \<longrightarrow> nllprec_a A D muest kest = Inl runtime_error) \<and>
             (\<not> rejects_oo (a_inv_p A) D S \<longrightarrow> (\<exists>v. nllprec_a A D muest kest = Inr v))) \<and>
          (a_inv A kest = Inl runtime_error \<or> (\<exists>S. a_inv A kest = Inr S)))"
proof -
  from assms(1) have oki: "inv_ok (a_inv A)" and okp: "inv_ok (a_inv_p A)"
    by (simp_all add: lib_ok_def)
  have a: "(rejects_mm (a_inv_p A) D kest \<longrightarrow> imp1matprec_a A D muest kest = Inl runtime_error) \<and>
          (\<not> rejects_mm (a_inv_p A) D kest \<longrightarrow> (\<exists>C. imp1matprec_a A D muest kest = Inr C))"
    using imp1matprec_a_fails [OF okp assms(2,3,4)] by blast
  have b: "fst (imp2matprec_a A D kest t2) =
            (if rejects_mm (a_inv A) D kest then Some runtime_error else None)"
    using imp2matprec_a_fails [OF oki assms(2,4,5)] by blast
  have c: "\<forall>e t2'. imp2matprec_a A D kest t2 = (Some e, t2') \<longrightarrow>
             (\<exists>k<N. a_inv A (block kest (find_nonfinite (D ! k))) = Inl e \<and>
                    imp2matprec_a A (take k D) kest t2 = (None, t2'))"
    using imp2matprec_a_fail_state [OF oki assms(2,4,5)] by blast
  note d = EMcycleprec_a_fails [OF assms(1,2) _ assms(3,4)]
  note e = nllprec_a_fails [OF assms(1,2,3,4)]
  from a b c d e show ?thesis by blast
qed

text \<open>
  The theorem in exact arithmetic at a singular \<open>K\<close>, positive semidefinite but not
  definite: the first row is added to \<open>t2\<close>, the second raises.
\<close>

theorem runtime_error_iff_inv_raises_witness:
  "lib_ok exact_arith \<and>
   is_mat [[NaN, Fin 1], [Fin 1, NaN]] 2 2 \<and>
   rejects_mm (a_inv_p exact_arith) [[NaN, Fin 1], [Fin 1, NaN]] [[Fin 1, Fin 0], [Fin 0, Fin 0]] \<and>
   imp1matprec_a exact_arith [[NaN, Fin 1], [Fin 1, NaN]] [Fin 0, Fin 0]
       [[Fin 1, Fin 0], [Fin 0, Fin 0]]
     = Inl runtime_error \<and>
   EMcycleprec_a exact_arith [[NaN, Fin 1], [Fin 1, NaN]] [Fin 0, Fin 0]
       [[Fin 1, Fin 0], [Fin 0, Fin 0]]
     = Inl runtime_error \<and>
   nllprec_a exact_arith [[NaN, Fin 1], [Fin 1, NaN]] [Fin 0, Fin 0]
       [[Fin 1, Fin 0], [Fin 0, Fin 0]]
     = Inl runtime_error \<and>
   imp2matprec_a exact_arith [[NaN, Fin 1], [Fin 1, NaN]] [[Fin 1, Fin 0], [Fin 0, Fin 0]]
       [[Fin 0, Fin 0], [Fin 0, Fin 0]]
     = (Some runtime_error, [[Fin 1, Fin 0], [Fin 0, Fin 0]])"
proof -
  let ?D = "[[NaN, Fin 1], [Fin 1, NaN]]" and ?K = "[[Fin 1, Fin 0], [Fin 0, Fin 0]]"
  let ?T = "[[Fin 0, Fin 0], [Fin 0, Fin 0]]"
  have h1: "is_mat ?D 2 2" and h2: "length [Fin 0, Fin 0 :: dbl] = 2"
    and h3: "is_mat ?K 2 2" and h4: "is_mat ?T 2 2"
    by (simp_all add: is_mat_def)
  have ip: "a_inv_p exact_arith = inv_m" and ii: "a_inv exact_arith = inv_m"
    by (simp_all add: exact_arith_def)
  have s: "rejects_mm (a_inv_p exact_arith) ?D ?K" unfolding ip by code_simp
  have d: "a_inv exact_arith ?K = Inl runtime_error" unfolding ii by code_simp
  have p: "imp2matprec_a exact_arith ?D ?K ?T = (Some runtime_error, [[Fin 1, Fin 0], [Fin 0, Fin 0]])"
    unfolding imp2matprec_a_exact by code_simp
  note t = runtime_error_iff_inv_raises [OF lib_ok_exact h1 h2 h3 h4]
  from t s have a: "imp1matprec_a exact_arith ?D [Fin 0, Fin 0] ?K = Inl runtime_error" by blast
  from t s have b: "EMcycleprec_a exact_arith ?D [Fin 0, Fin 0] ?K = Inl runtime_error" by simp
  from t d have c: "nllprec_a exact_arith ?D [Fin 0, Fin 0] ?K = Inl runtime_error" by blast
  from lib_ok_exact h1 s a b c p show ?thesis by blast
qed

text \<open>
  The claim as stated fails at \<open>K = [[-1, 0], [0, 1]]\<close>, which is symmetric and
  invertible but not positive definite (its quadratic form is \<open>-1\<close> at \<open>(1, 0)\<close>): all
  four operations return, \<^verbatim>\<open>EMcycleprec\<close> with a negative variance and \<^verbatim>\<open>nllprec\<close> with
  NaN. It also fails at the singular \<open>K = [[1, 0], [0, 0]]\<close>, where \<^verbatim>\<open>imp2matprec\<close> raises
  but has changed \<open>t2\<close>.
\<close>

theorem positive_definite_counterexample:
  "dot [Fin 1, Fin 0] (mv [[Fin (- 1), Fin 0], [Fin 0, Fin 1]] [Fin 1, Fin 0]) = Fin (- 1) \<and>
   inv_m [[Fin (- 1), Fin 0], [Fin 0, Fin 1]] = Inr [[Fin (- 1), Fin 0], [Fin 0, Fin 1]] \<and>
   imp1matprec [[NaN, Fin 1]] [Fin 0, Fin 0] [[Fin (- 1), Fin 0], [Fin 0, Fin 1]]
     = Inr [[Fin 0, Fin 1]] \<and>
   imp2matprec [[NaN, Fin 1]] [[Fin (- 1), Fin 0], [Fin 0, Fin 1]] [[Fin 0, Fin 0], [Fin 0, Fin 0]]
     = (None, [[Fin (- 1), Fin 0], [Fin 0, Fin 0]]) \<and>
   EMcycleprec [[NaN, Fin 1], [Fin 1, Fin 0], [Fin 0, Fin 2]] [Fin 0, Fin 0]
       [[Fin (- 1), Fin 0], [Fin 0, Fin 1]]
     = Inr ([Fin (1 / 3), Fin 1],
            [[Fin (- 1 / 9), Fin (- 1 / 3)], [Fin (- 1 / 3), Fin (2 / 3)]],
            [[Fin (- 18 / 5), Fin (- 9 / 5)], [Fin (- 9 / 5), Fin (3 / 5)]]) \<and>
   nllprec [[Fin 1, Fin 1]] [Fin 0, Fin 0] [[Fin (- 1), Fin 0], [Fin 0, Fin 1]] = Inr NaN \<and>
   imp2matprec [[NaN, Fin 1], [Fin 1, NaN]] [[Fin 1, Fin 0], [Fin 0, Fin 0]]
       [[Fin 0, Fin 0], [Fin 0, Fin 0]]
     = (Some runtime_error, [[Fin 1, Fin 0], [Fin 0, Fin 0]])"
proof (intro conjI)
  show "nllprec [[Fin 1, Fin 1]] [Fin 0, Fin 0] [[Fin (- 1), Fin 0], [Fin 0, Fin 1]] = Inr NaN"
    by (simp add: eval_defs)
qed code_simp+

section \<open>Claims about the sum over the rows, for any arithmetic\<close>

text \<open>The value that a row adds depends on the row alone.\<close>

lemma nll_term_a_row:
  assumes "i < length d" and "length (d ! i) \<le> n_cols d"
  shows "nll_term_a A i d muest kinv = nll_term_a A 0 [d ! i] muest kinv"
proof -
  let ?io = "find_finite (d ! i)"
  have io: "\<forall>c\<in>set ?io. c < n_cols d"
    using assms by (auto simp: set_find_finite)
  have x: "submat d [i] ?io = Inr [map (\<lambda>c. d ! i ! c) ?io]"
    using assms io by (simp add: submat_eq_Inr n_rows_def)
  have y: "submat [d ! i] [0] ?io = Inr [map (\<lambda>c. d ! i ! c) ?io]"
    by (simp add: submat_eq_Inr n_rows_def n_cols_def set_find_finite)
  show ?thesis
    by (simp add: nll_term_a_def Let_def x y)
qed

lemma nll_loop_a_append:
  "nll_loop_a A (ixs @ jxs) d muest kinv nll =
   bind_e (nll_loop_a A ixs d muest kinv nll) (\<lambda>a. nll_loop_a A jxs d muest kinv a)"
  by (induction ixs arbitrary: nll) (simp_all split: sum.splits)

lemma nll_loop_a_cong:
  assumes "\<forall>i\<in>set ixs. nll_term_a A (f i) d muest kinv = nll_term_a A i d' muest kinv"
  shows "nll_loop_a A (map f ixs) d muest kinv nll = nll_loop_a A ixs d' muest kinv nll"
  using assms by (induction ixs arbitrary: nll) (simp_all add: nll_row_a_def split: sum.splits)

lemma nllprec_a_append:
  assumes "is_mat D1 N1 P" and "is_mat D2 N2 P"
  shows "nllprec_a A (D1 @ D2) muest kest =
           bind_e (a_inv A kest) (\<lambda>S.
           bind_e (nll_loop_a A [0..<N1] D1 muest S (Fin 0)) (\<lambda>a.
             nll_loop_a A [0..<N2] D2 muest S a))"
proof -
  let ?D = "D1 @ D2"
  from assms have l1: "length D1 = N1" and l2: "length D2 = N2"
    by (simp_all add: is_mat_length)
  note w = is_mat_rows_ok [OF is_mat_append [OF assms]]
  note w1 = is_mat_rows_ok [OF assms(1)]
  note w2 = is_mat_rows_ok [OF assms(2)]
  have t1: "nll_term_a A i ?D muest S = nll_term_a A i D1 muest S" if "i < N1" for i S
  proof -
    from that l1 l2 w have "nll_term_a A i ?D muest S = nll_term_a A 0 [?D ! i] muest S"
      by (intro nll_term_a_row) (simp_all add: n_rows_def)
    moreover from that l1 w1 have "nll_term_a A i D1 muest S = nll_term_a A 0 [D1 ! i] muest S"
      by (intro nll_term_a_row) (simp_all add: n_rows_def)
    ultimately show ?thesis using that l1 by (simp add: nth_append)
  qed
  have t2: "nll_term_a A (N1 + j) ?D muest S = nll_term_a A j D2 muest S" if "j < N2" for j S
  proof -
    from that l1 l2 w
    have "nll_term_a A (N1 + j) ?D muest S = nll_term_a A 0 [?D ! (N1 + j)] muest S"
      by (intro nll_term_a_row) (simp_all add: n_rows_def)
    moreover from that l2 w2 have "nll_term_a A j D2 muest S = nll_term_a A 0 [D2 ! j] muest S"
      by (intro nll_term_a_row) (simp_all add: n_rows_def)
    ultimately show ?thesis using l1 by (simp add: nth_append)
  qed
  have "map (\<lambda>j. N1 + j) [0..<N2] = map (\<lambda>j. j + N1) [0..<N2]"
    by (simp add: add.commute)
  also have "\<dots> = [N1..<N2 + N1]" by (rule map_add_upt)
  finally have "[N1..<N1 + N2] = map (\<lambda>j. N1 + j) [0..<N2]"
    by (simp add: add.commute)
  moreover have "[0..<N1 + N2] = [0..<N1] @ [N1..<N1 + N2]"
    by (rule upt_add_eq_append) simp
  ultimately have u: "[0..<N1 + N2] = map id [0..<N1] @ map (\<lambda>j. N1 + j) [0..<N2]"
    by simp
  have "nll_loop_a A [0..<N1 + N2] ?D muest S (Fin 0) =
          bind_e (nll_loop_a A [0..<N1] D1 muest S (Fin 0)) (\<lambda>a.
             nll_loop_a A [0..<N2] D2 muest S a)" for S
  proof -
    have a: "nll_loop_a A (map id [0..<N1]) ?D muest S nll = nll_loop_a A [0..<N1] D1 muest S nll"
      for nll by (rule nll_loop_a_cong) (simp add: t1)
    have b: "nll_loop_a A (map (\<lambda>j. N1 + j) [0..<N2]) ?D muest S nll =
             nll_loop_a A [0..<N2] D2 muest S nll"
      for nll by (rule nll_loop_a_cong) (simp add: t2)
    show ?thesis unfolding u nll_loop_a_append a b ..
  qed
  then show ?thesis by (simp add: nllprec_a_def n_rows_def l1 l2)
qed

lemma nll_loop_a_shift:
  assumes "exact_add A"
  shows "nll_loop_a A ixs d muest kinv nll =
         bind_e (nll_loop_a A ixs d muest kinv (Fin 0)) (\<lambda>b. Inr (a_add A nll b))"
proof -
  from assms have assoc: "a_add A (a_add A a b) c = a_add A a (a_add A b c)" for a b c
    unfolding exact_add_def by blast
  from assms have comm: "a_add A a b = a_add A b a" for a b
    unfolding exact_add_def by blast
  from assms have zero: "a_add A (Fin 0) a = a" for a
    unfolding exact_add_def by blast
  have zero': "a_add A a (Fin 0) = a" for a using comm [of a "Fin 0"] zero by simp
  show ?thesis
  proof (induction ixs arbitrary: nll)
    case Nil
    show ?case by (simp add: zero')
  next
    case (Cons i ixs)
    show ?case
    proof (cases "nll_term_a A i d muest kinv")
      case (Inl e)
      then show ?thesis by (simp add: nll_row_a_def)
    next
      case (Inr t)
      show ?thesis
      proof (cases "nll_loop_a A ixs d muest kinv (Fin 0)")
        case (Inl e)
        with Inr Cons [of "a_add A nll t"] Cons [of t] show ?thesis
          by (simp add: nll_row_a_def zero)
      next
        case r: (Inr b)
        with Inr Cons [of "a_add A nll t"] Cons [of t] show ?thesis
          by (simp add: nll_row_a_def zero assoc)
      qed
    qed
  qed
qed

lemma nllprec_a_additive:
  assumes "exact_add A" and "is_mat D1 N1 P" and "is_mat D2 N2 P"
  shows "nllprec_a A (D1 @ D2) muest kest = nll_parts_a A D1 D2 muest kest"
proof -
  from assms have l1: "length D1 = N1" and l2: "length D2 = N2"
    by (simp_all add: is_mat_length)
  note sh = nll_loop_a_shift [OF assms(1), of "[0..<N2]" D2 muest]
  show ?thesis
    unfolding nllprec_a_append [OF assms(2,3)] nll_parts_a_def
  proof (cases "a_inv A kest")
    case (Inl e)
    then show "bind_e (a_inv A kest) (\<lambda>S.
           bind_e (nll_loop_a A [0..<N1] D1 muest S (Fin 0)) (\<lambda>a.
             nll_loop_a A [0..<N2] D2 muest S a)) =
         bind_e (nllprec_a A D1 muest kest) (\<lambda>a.
           bind_e (nllprec_a A D2 muest kest) (\<lambda>b. Inr (a_add A a b)))"
      by (simp add: nllprec_a_def)
  next
    case (Inr S)
    show "bind_e (a_inv A kest) (\<lambda>S.
           bind_e (nll_loop_a A [0..<N1] D1 muest S (Fin 0)) (\<lambda>a.
             nll_loop_a A [0..<N2] D2 muest S a)) =
         bind_e (nllprec_a A D1 muest kest) (\<lambda>a.
           bind_e (nllprec_a A D2 muest kest) (\<lambda>b. Inr (a_add A a b)))"
    proof (cases "nll_loop_a A [0..<N1] D1 muest S (Fin 0)")
      case (Inl e)
      with Inr show ?thesis by (simp add: nllprec_a_def n_rows_def l1 l2)
    next
      case a: (Inr a)
      with Inr sh [of S a] show ?thesis by (simp add: nllprec_a_def n_rows_def l1 l2)
    qed
  qed
qed

text \<open>The value of the loop, from the values of the rows.\<close>

lemma nll_loop_a_Inr:
  assumes "\<forall>i\<in>set ixs. i < length d \<and> length (d ! i) \<le> n_cols d"
  shows "nll_loop_a A ixs d muest kinv nll = Inr v \<longleftrightarrow>
           (\<forall>i\<in>set ixs. \<exists>t. nll_term_a A 0 [d ! i] muest kinv = Inr t) \<and>
           v = fold (\<lambda>t a. a_add A a t)
                 (map (\<lambda>i. case nll_term_a A 0 [d ! i] muest kinv of Inl e \<Rightarrow> Fin 0 | Inr t \<Rightarrow> t)
                    ixs) nll"
  using assms
proof (induction ixs arbitrary: nll)
  case Nil
  show ?case by auto
next
  case (Cons i ixs)
  then have i: "i < length d" "length (d ! i) \<le> n_cols d"
    and rest: "\<forall>j\<in>set ixs. j < length d \<and> length (d ! j) \<le> n_cols d" by simp_all
  note r = nll_term_a_row [OF i, of A muest kinv]
  show ?case
  proof (cases "nll_term_a A 0 [d ! i] muest kinv")
    case (Inl e)
    then show ?thesis by (simp add: nll_row_a_def r)
  next
    case (Inr t)
    with Cons.IH [OF rest, of "a_add A nll t"] show ?thesis
      by (simp add: nll_row_a_def r)
  qed
qed

lemma nllprec_a_Inr:
  assumes "is_mat D N P"
  shows "nllprec_a A D muest kest = Inr v \<longleftrightarrow>
           (\<exists>S. a_inv A kest = Inr S \<and>
                (\<forall>x\<in>set D. \<exists>t. nll_term_a A 0 [x] muest S = Inr t) \<and>
                v = fold (\<lambda>t a. a_add A a t)
                      (map (\<lambda>x. case nll_term_a A 0 [x] muest S of Inl e \<Rightarrow> Fin 0 | Inr t \<Rightarrow> t) D)
                      (Fin 0))"
proof -
  let ?g = "\<lambda>S x. case nll_term_a A 0 [x] muest S of Inl e \<Rightarrow> Fin 0 | Inr t \<Rightarrow> t"
  have m: "map (\<lambda>i. ?g S (D ! i)) [0..<length D] = map (?g S) D" for S
    by (rule nth_equalityI) simp_all
  have s: "(\<forall>i\<in>{0..<length D}. \<exists>t. nll_term_a A 0 [D ! i] muest S = Inr t) \<longleftrightarrow>
           (\<forall>x\<in>set D. \<exists>t. nll_term_a A 0 [x] muest S = Inr t)" for S
    by (auto simp: all_set_conv_all_nth)
  note w = is_mat_rows_ok [OF assms, unfolded n_rows_def]
  show ?thesis
    by (simp add: nllprec_a_def bind_e_eq_Inr n_rows_def nll_loop_a_Inr [OF w] m s)
qed

lemma nllprec_a_mset:
  assumes "exact_add A" and "is_mat D N P" and "mset D' = mset D"
    and "nllprec_a A D muest kest = Inr v"
  shows "nllprec_a A D' muest kest = Inr v"
proof -
  from assms(1) have assoc: "a_add A (a_add A a b) c = a_add A a (a_add A b c)" for a b c
    unfolding exact_add_def by blast
  from assms(1) have comm: "a_add A a b = a_add A b a" for a b
    unfolding exact_add_def by blast
  from assms(3,2) have m': "is_mat D' N P" by (rule is_mat_mset)
  from assms(4) obtain S where S: "a_inv A kest = Inr S"
    and all: "\<forall>x\<in>set D. \<exists>t. nll_term_a A 0 [x] muest S = Inr t"
    and v: "v = fold (\<lambda>t a. a_add A a t)
                      (map (\<lambda>x. case nll_term_a A 0 [x] muest S of Inl e \<Rightarrow> Fin 0 | Inr t \<Rightarrow> t) D)
                      (Fin 0)"
    unfolding nllprec_a_Inr [OF assms(2)] by blast
  let ?g = "\<lambda>x. case nll_term_a A 0 [x] muest S of Inl e \<Rightarrow> Fin 0 | Inr t \<Rightarrow> t"
  from assms(3) have s: "set D' = set D" by (rule mset_eq_setD)
  from assms(3) have "mset (map ?g D') = mset (map ?g D)" by simp
  moreover have "(\<lambda>a. a_add A a x) \<circ> (\<lambda>a. a_add A a y) = (\<lambda>a. a_add A a y) \<circ> (\<lambda>a. a_add A a x)"
    for x y
  proof
    fix a
    have "a_add A (a_add A a y) x = a_add A (a_add A a x) y"
      by (metis assoc comm)
    then show "((\<lambda>a. a_add A a x) \<circ> (\<lambda>a. a_add A a y)) a =
               ((\<lambda>a. a_add A a y) \<circ> (\<lambda>a. a_add A a x)) a" by simp
  qed
  ultimately have "fold (\<lambda>t a. a_add A a t) (map ?g D') = fold (\<lambda>t a. a_add A a t) (map ?g D)"
    by (intro fold_multiset_equiv) simp_all
  with S all v s show ?thesis
    unfolding nllprec_a_Inr [OF m'] by simp
qed

lemma exact_add_exact: "exact_add exact_arith"
  by (simp add: exact_add_def exact_arith_def dadd_assoc) (blast intro: dadd_commute)

text \<open>
  Claim C9, amended. \<^verbatim>\<open>nllprec\<close> adds the values of the rows to \<open>nll\<close> one after the
  other, in the order of the rows. On the rows of \<open>D1\<close> followed by the rows of \<open>D2\<close> (two
  data matrices over the same \<open>P\<close> columns) it therefore returns what the loop over \<open>D2\<close>
  returns when it is started from the value for \<open>D1\<close> in place of \<open>0\<close>, whatever the
  arithmetic. Where the addition is exact (associative, commutative, \<open>0 + a = a\<close>), that
  is the sum of \<^verbatim>\<open>nllprec\<close> of \<open>D1\<close> and of \<open>D2\<close>, and a value returned for \<open>D1\<close> is
  returned for every rearrangement of its rows. An exception of either part is the
  exception of the whole.
\<close>

theorem nllprec_accumulates:
  assumes "is_mat D1 N1 P" and "is_mat D2 N2 P"
  shows "nllprec_a A (D1 @ D2) muest kest =
           bind_e (a_inv A kest) (\<lambda>S.
           bind_e (nll_loop_a A [0..<N1] D1 muest S (Fin 0)) (\<lambda>a.
             nll_loop_a A [0..<N2] D2 muest S a)) \<and>
         (exact_add A \<longrightarrow>
            nllprec_a A (D1 @ D2) muest kest = nll_parts_a A D1 D2 muest kest \<and>
            (\<forall>D' v. mset D' = mset D1 \<longrightarrow> nllprec_a A D1 muest kest = Inr v \<longrightarrow>
                    nllprec_a A D' muest kest = Inr v))"
proof (intro conjI impI allI)
  show "nllprec_a A (D1 @ D2) muest kest =
           bind_e (a_inv A kest) (\<lambda>S.
           bind_e (nll_loop_a A [0..<N1] D1 muest S (Fin 0)) (\<lambda>a.
             nll_loop_a A [0..<N2] D2 muest S a))"
    using assms by (rule nllprec_a_append)
next
  assume "exact_add A"
  then show "nllprec_a A (D1 @ D2) muest kest = nll_parts_a A D1 D2 muest kest"
    using assms by (rule nllprec_a_additive)
next
  fix D' v
  assume "exact_add A" and "mset D' = mset D1" and "nllprec_a A D1 muest kest = Inr v"
  with assms(1) show "nllprec_a A D' muest kest = Inr v"
    by (intro nllprec_a_mset [of A D1 N1 P D']) simp_all
qed

text \<open>The theorem in exact arithmetic.\<close>

theorem nllprec_accumulates_witness:
  "is_mat [[Fin 1], [Fin 2]] 2 1 \<and> is_mat [[Fin 3]] 1 1 \<and> exact_add exact_arith \<and>
   nllprec_a exact_arith [[Fin 1], [Fin 2]] [Fin 0] [[Fin 1]]
     = Inr (Fin ((1 + ln (2 * pi)) / 2 + (4 + ln (2 * pi)) / 2)) \<and>
   nllprec_a exact_arith [[Fin 3]] [Fin 0] [[Fin 1]] = Inr (Fin ((9 + ln (2 * pi)) / 2)) \<and>
   nllprec_a exact_arith ([[Fin 1], [Fin 2]] @ [[Fin 3]]) [Fin 0] [[Fin 1]]
     = Inr (Fin ((1 + ln (2 * pi)) / 2 + (4 + ln (2 * pi)) / 2 + (9 + ln (2 * pi)) / 2)) \<and>
   nllprec_a exact_arith [[Fin 2], [Fin 1]] [Fin 0] [[Fin 1]]
     = Inr (Fin ((1 + ln (2 * pi)) / 2 + (4 + ln (2 * pi)) / 2))"
proof -
  have h1: "is_mat [[Fin 1], [Fin 2]] 2 1" and h2: "is_mat [[Fin 3]] 1 1"
    by (simp_all add: is_mat_def)
  have a: "nllprec_a exact_arith [[Fin 1], [Fin 2]] [Fin 0] [[Fin 1]]
     = Inr (Fin ((1 + ln (2 * pi)) / 2 + (4 + ln (2 * pi)) / 2))"
    unfolding nllprec_a_exact by (simp add: eval_defs)
  have b: "nllprec_a exact_arith [[Fin 3]] [Fin 0] [[Fin 1]] = Inr (Fin ((9 + ln (2 * pi)) / 2))"
    unfolding nllprec_a_exact by (simp add: eval_defs)
  have p: "mset [[Fin 2], [Fin 1]] = mset [[Fin 1], [Fin 2]]"
    by simp
  note t = nllprec_accumulates [OF h1 h2, of exact_arith "[Fin 0]" "[[Fin 1]]"]
  from t exact_add_exact
  have "nllprec_a exact_arith ([[Fin 1], [Fin 2]] @ [[Fin 3]]) [Fin 0] [[Fin 1]]
     = nll_parts_a exact_arith [[Fin 1], [Fin 2]] [[Fin 3]] [Fin 0] [[Fin 1]]"
    by blast
  also have "\<dots> = Inr (Fin ((1 + ln (2 * pi)) / 2 + (4 + ln (2 * pi)) / 2 + (9 + ln (2 * pi)) / 2))"
    unfolding nll_parts_a_def a b by (simp add: exact_arith_def)
  finally have c: "nllprec_a exact_arith ([[Fin 1], [Fin 2]] @ [[Fin 3]]) [Fin 0] [[Fin 1]]
     = Inr (Fin ((1 + ln (2 * pi)) / 2 + (4 + ln (2 * pi)) / 2 + (9 + ln (2 * pi)) / 2))" .
  from t exact_add_exact
  have "\<forall>D' v. mset D' = mset [[Fin 1], [Fin 2]] \<longrightarrow>
          nllprec_a exact_arith [[Fin 1], [Fin 2]] [Fin 0] [[Fin 1]] = Inr v \<longrightarrow>
          nllprec_a exact_arith D' [Fin 0] [[Fin 1]] = Inr v"
    by blast
  with p a
  have d: "nllprec_a exact_arith [[Fin 2], [Fin 1]] [Fin 0] [[Fin 1]]
     = Inr (Fin ((1 + ln (2 * pi)) / 2 + (4 + ln (2 * pi)) / 2))"
    by blast
  from h1 h2 exact_add_exact a b c d show ?thesis by blast
qed

subsection \<open>The sum in binary64\<close>

lemma round_even_int [simp]: "round_even (of_int n) = n"
  by (simp add: round_even_def)

lemma round_even_low:
  assumes "0 \<le> f" and "f < 1 / 2"
  shows "round_even (of_int n + f) = n"
proof -
  have "\<lfloor>of_int n + f\<rfloor> = n" using assms by (simp add: floor_unique)
  then show ?thesis using assms by (simp add: round_even_def)
qed

lemma round_even_high:
  assumes "1 / 2 < f" and "f < 1"
  shows "round_even (of_int n + f) = n + 1"
proof -
  have "\<lfloor>of_int n + f\<rfloor> = n" using assms by (simp add: floor_unique)
  then show ?thesis using assms by (simp add: round_even_def)
qed

lemma round_even_ge: "\<lfloor>x\<rfloor> \<le> round_even x"
  by (simp add: round_even_def Let_def)

lemma round_even_le: "round_even x \<le> \<lceil>x\<rceil>"
proof -
  have "\<lfloor>x\<rfloor> + 1 \<le> \<lceil>x\<rceil>" if "x - of_int \<lfloor>x\<rfloor> \<noteq> 0"
    using that by (metis ceiling_altdef diff_self order_refl)
  moreover have "\<lfloor>x\<rfloor> \<le> \<lceil>x\<rceil>" by (rule floor_le_ceiling)
  ultimately show ?thesis
    by (auto simp: round_even_def Let_def)
qed

lemma expo_eq:
  assumes "2 powr of_int k \<le> \<bar>x\<bar>" and "\<bar>x\<bar> < 2 powr (of_int k + 1)" and "- 1022 \<le> k"
  shows "expo x = k"
proof -
  have "(0::real) < 2 powr of_int k" by simp
  with assms(1) have "0 < \<bar>x\<bar>" by linarith
  then have "\<lfloor>log 2 \<bar>x\<bar>\<rfloor> = k"
    using assms(1,2) by (simp add: floor_log_eq_powr_iff)
  with assms(3) show ?thesis by (simp add: expo_def)
qed

lemma rnd_binade:
  assumes "2 powr of_int k \<le> \<bar>x\<bar>" and "\<bar>x\<bar> < 2 powr (of_int k + 1)" and "- 1022 \<le> k"
    and "round_even (x / 2 powr of_int (k - 52)) = n"
    and "\<bar>of_int n * 2 powr of_int (k - 52)\<bar> < (2 ^ 1024 :: real)"
  shows "rnd x = Fin (of_int n * 2 powr of_int (k - 52))"
proof -
  have "(0::real) < 2 powr of_int k" by simp
  with assms(1) have "0 < \<bar>x\<bar>" by linarith
  then have x: "x \<noteq> 0" by simp
  from expo_eq [OF assms(1,2,3)] have e: "expo x = k" .
  from assms(5) have "\<not> (2 ^ 1024 :: real) \<le> \<bar>of_int n * 2 powr of_int (k - 52)\<bar>" by simp
  with x e assms(4) show ?thesis
    unfolding rnd_def Let_def by simp
qed

text \<open>A double is rounded to itself.\<close>

lemma rnd_exact:
  assumes "x = of_int n * 2 powr of_int e" and "2 ^ 52 \<le> \<bar>n\<bar>" and "\<bar>n\<bar> < 2 ^ 53"
    and "- 1074 \<le> e" and "e \<le> 970"
  shows "rnd x = Fin x"
proof -
  let ?k = "e + 52"
  have p: "(2::real) powr of_int ?k = 2 ^ 52 * 2 powr of_int e"
    by (simp add: powr_add)
  have p1: "(2::real) powr (of_int ?k + 1) = 2 ^ 53 * 2 powr of_int e"
    by (simp add: powr_add)
  have ax: "\<bar>x\<bar> = of_int \<bar>n\<bar> * 2 powr of_int e"
    by (simp add: assms(1) abs_mult)
  have "(2 ^ 52 :: real) \<le> of_int \<bar>n\<bar>"
    using assms(2) by (metis of_int_le_iff of_int_numeral of_int_power)
  then have lo: "2 powr of_int ?k \<le> \<bar>x\<bar>"
    unfolding p ax by (intro mult_right_mono) simp_all
  have "of_int \<bar>n\<bar> < (2 ^ 53 :: real)"
    using assms(3) by (metis of_int_less_iff of_int_numeral of_int_power)
  then have hi: "\<bar>x\<bar> < 2 powr (of_int ?k + 1)"
    unfolding p1 ax by (intro mult_strict_right_mono) simp_all
  have k: "- 1022 \<le> ?k" using assms(4) by simp
  have r: "round_even (x / 2 powr of_int (?k - 52)) = n"
    by (simp add: assms(1))
  have "2 powr of_int e \<le> (2 powr of_int 970 :: real)"
    using assms(5) by (intro powr_mono) simp_all
  also have "\<dots> = 2 ^ 970"
    by (simp add: powr_realpow [symmetric])
  finally have "2 powr of_int e \<le> (2 ^ 970 :: real)" .
  with \<open>of_int \<bar>n\<bar> < (2 ^ 53 :: real)\<close>
  have "of_int \<bar>n\<bar> * 2 powr of_int e < (2 ^ 53 :: real) * 2 ^ 970"
    by (intro mult_less_le_imp_less) simp_all
  also have "\<dots> \<le> 2 ^ 1024" by (simp add: power_add [symmetric])
  finally have b: "\<bar>of_int n * 2 powr of_int (?k - 52)\<bar> < (2 ^ 1024 :: real)"
    using ax assms(1) by simp
  from rnd_binade [OF lo hi k r b] show ?thesis by (simp add: assms(1))
qed

text \<open>
  Two roundings that \<open>rnd\<close> gets as the machine does: \<open>1 / 3\<close>, and the tie in
  \<open>0.1 + 0.2\<close>, which goes to the even neighbour \<open>0.30000000000000004\<close>.
\<close>

lemma rnd_third: "rnd (1 / 3) = Fin (6004799503160661 / 2 ^ 54)"
proof -
  have a: "2 powr of_int (- 2) \<le> \<bar>1 / 3 :: real\<bar>"
    and b: "\<bar>1 / 3 :: real\<bar> < 2 powr (of_int (- 2) + 1)"
    by (simp_all add: powr_minus_divide)
  have e: "(1 / 3 :: real) / 2 powr of_int (- 2 - 52) = of_int 6004799503160661 + 1 / 3"
    by (simp add: powr_minus_divide)
  have "round_even (of_int 6004799503160661 + 1 / 3) = 6004799503160661"
    by (rule round_even_low) simp_all
  then have r: "round_even ((1 / 3 :: real) / 2 powr of_int (- 2 - 52)) = 6004799503160661"
    unfolding e .
  have "rnd (1 / 3) = Fin (of_int 6004799503160661 * 2 powr of_int (- 2 - 52))"
    using a b _ r by (rule rnd_binade) (simp_all add: powr_minus_divide)
  then show ?thesis by (simp add: powr_minus_divide)
qed

lemma rnd_tie:
  "rnd (3602879701896397 / 2 ^ 55 + 3602879701896397 / 2 ^ 54) = Fin (5404319552844596 / 2 ^ 54)"
proof -
  let ?x = "3602879701896397 / 2 ^ 55 + 3602879701896397 / 2 ^ 54 :: real"
  have a: "2 powr of_int (- 2) \<le> \<bar>?x\<bar>" and b: "\<bar>?x\<bar> < 2 powr (of_int (- 2) + 1)"
    by (simp_all add: powr_minus_divide)
  have "?x / 2 powr of_int (- 2 - 52) = 10808639105689191 / 2"
    by (simp add: powr_minus_divide)
  moreover have "\<lfloor>10808639105689191 / 2 :: real\<rfloor> = 5404319552844595"
    by (simp add: floor_unique)
  then have "round_even (10808639105689191 / 2) = 5404319552844596"
    by (simp add: round_even_def)
  ultimately have r: "round_even (?x / 2 powr of_int (- 2 - 52)) = 5404319552844596"
    by (simp only:)
  have "rnd ?x = Fin (of_int 5404319552844596 * 2 powr of_int (- 2 - 52))"
    using a b _ r by (rule rnd_binade) (simp_all add: powr_minus_divide)
  then show ?thesis by (simp add: powr_minus_divide)
qed

lemma inv_ok_rd_inv: "inv_ok rd_inv"
  unfolding inv_ok_def
proof (intro allI impI)
  fix M n
  assume m: "is_mat M n n"
  from inv_ok_inv_m m have c: "case inv_m M of Inl e \<Rightarrow> e = runtime_error | Inr X \<Rightarrow> is_mat X n n"
    unfolding inv_ok_def by blast
  show "case rd_inv M of Inl e \<Rightarrow> e = runtime_error | Inr X \<Rightarrow> is_mat X n n"
  proof (cases "inv_m M")
    case (Inl e)
    with c show ?thesis by (simp add: rd_inv_def)
  next
    case (Inr X)
    with c have "is_mat X n n" by simp
    then have "is_mat (map (map rd) X) n n" by (simp add: is_mat_def list_all_iff)
    with Inr show ?thesis by (simp add: rd_inv_def)
  qed
qed

lemma lib_ok_binary64: "lib_ok binary64"
  by (simp add: lib_ok_def binary64_def inv_ok_rd_inv)

text \<open>
  The logarithm of \<^verbatim>\<open>2*arma::datum::pi\<close> lies between \<open>4 / 3\<close> and \<open>31 / 16\<close>, so its
  double is \<open>m / 2\<^bsup>52\<^esup>\<close> for an integer \<open>m\<close> between \<open>2\<^bsup>52\<^esup>\<close> and \<open>2\<^bsup>53\<^esup>\<close>. Nothing
  more about \<^verbatim>\<open>log\<close> is used below.
\<close>

lemma ln_two_pi_lower: "4 / 3 \<le> ln (884279719003555 / 2 ^ 47 :: real)"
proof -
  have "exp (4 / 3 :: real) = exp (of_nat 4 * (1 / 3))" by simp
  also have "\<dots> = exp (1 / 3) ^ 4" by (rule exp_of_nat_mult)
  also have "\<dots> \<le> (1 + 1 / 3 + (1 / 3)\<^sup>2) ^ 4"
    by (intro power_mono exp_bound) simp_all
  also have "\<dots> \<le> 884279719003555 / 2 ^ 47" by (simp add: power2_eq_square power_divide)
  finally have "exp (4 / 3 :: real) \<le> 884279719003555 / 2 ^ 47" .
  then have "ln (exp (4 / 3 :: real)) \<le> ln (884279719003555 / 2 ^ 47)"
    by (intro ln_mono) simp_all
  then show ?thesis by simp
qed

lemma ln_two_pi_upper: "ln (884279719003555 / 2 ^ 47 :: real) \<le> 31 / 16"
proof -
  have "(884279719003555 / 2 ^ 47 :: real) \<le> (1 + 31 / 64 + (31 / 64)\<^sup>2 / 2) ^ 4"
    by (simp add: power2_eq_square power_divide)
  also have "\<dots> \<le> exp (31 / 64) ^ 4"
    by (intro power_mono exp_lower_Taylor_quadratic) simp_all
  also have "\<dots> = exp (of_nat 4 * (31 / 64))" by (rule exp_of_nat_mult [symmetric])
  also have "\<dots> = exp (31 / 16)" by simp
  finally have "(884279719003555 / 2 ^ 47 :: real) \<le> exp (31 / 16)" .
  then have "ln (884279719003555 / 2 ^ 47 :: real) \<le> ln (exp (31 / 16))"
    by (intro ln_mono) simp_all
  then show ?thesis by simp
qed

lemma a_add_binary64 [simp]: "a_add binary64 (Fin x) (Fin y) = rnd (x + y)"
  by (simp add: binary64_def)

lemma a_sub_binary64 [simp]: "a_sub binary64 (Fin x) (Fin y) = rnd (x - y)"
  by (simp add: binary64_def dsub_def)

lemma a_mul_binary64 [simp]: "a_mul binary64 (Fin x) (Fin y) = rnd (x * y)"
  by (simp add: binary64_def)

lemma a_log_binary64 [simp]: "0 < x \<Longrightarrow> a_log binary64 (Fin x) = rnd (ln x)"
  by (simp add: binary64_def)

lemma a_det_binary64 [simp]: "a_det binary64 [[Fin x]] = rnd x"
  by (simp add: binary64_def dsum_def sign_d_def)

lemma a_inv_binary64 [simp]:
  "x \<noteq> 0 \<Longrightarrow> a_inv binary64 [[Fin x]] = Inr [[rnd (1 / x)]]"
  "x \<noteq> 0 \<Longrightarrow> a_inv_p binary64 [[Fin x]] = Inr [[rnd (1 / x)]]"
  by (simp_all add: binary64_def rd_inv_def inv_m_1x1)

lemma rnd_0 [simp]: "rnd 0 = Fin 0"
  by (simp add: rnd_def)

lemma rnd_exact_div:
  assumes "x = of_int n / 2 ^ e" and "2 ^ 52 \<le> \<bar>n\<bar>" and "\<bar>n\<bar> < 2 ^ 53" and "e \<le> 1074"
  shows "rnd x = Fin x"
proof -
  have "(2::real) powr of_int (- int e) = 1 / 2 ^ e"
    by (simp add: powr_minus_divide powr_realpow)
  with assms(1) have "x = of_int n * 2 powr of_int (- int e)" by simp
  then show ?thesis using assms(2,3)
    by (rule rnd_exact) (use assms(4) in simp_all)
qed

lemma rnd_exact_mul:
  assumes "x = of_int n * 2 ^ e" and "2 ^ 52 \<le> \<bar>n\<bar>" and "\<bar>n\<bar> < 2 ^ 53" and "e \<le> 970"
  shows "rnd x = Fin x"
proof -
  have "(2::real) powr of_int (int e) = 2 ^ e"
    by (simp add: powr_realpow)
  with assms(1) have "x = of_int n * 2 powr of_int (int e)" by simp
  then show ?thesis using assms(2,3)
    by (rule rnd_exact) (use assms(4) in simp_all)
qed

lemma rnd_1 [simp]: "rnd 1 = Fin 1"
  by (rule rnd_exact_div [of 1 "2 ^ 52" 52]) simp_all

lemma rnd_pow2_27 [simp]: "rnd 134217728 = Fin 134217728"
  by (rule rnd_exact_div [of 134217728 "2 ^ 52" 25]) simp_all

lemma rnd_pow2_53 [simp]: "rnd 9007199254740992 = Fin 9007199254740992"
  by (rule rnd_exact_mul [of 9007199254740992 "2 ^ 52" 1]) simp_all

lemma rnd_pow2_54 [simp]: "rnd 18014398509481984 = Fin 18014398509481984"
  by (rule rnd_exact_mul [of 18014398509481984 "2 ^ 52" 2]) simp_all

lemma rnd_two_pi: "rnd (884279719003555 / 2 ^ 47) = Fin (884279719003555 / 2 ^ 47)"
  by (rule rnd_exact_div [of "884279719003555 / 2 ^ 47" 7074237752028440 50]) simp_all

lemma log_2pi_binary64:
  "\<exists>m. 2 ^ 52 < m \<and> m < 2 ^ 53 \<and> log_2pi_a binary64 = Fin (of_int m / 2 ^ 52)"
proof -
  let ?q = "884279719003555 / 2 ^ 47 :: real"
  let ?m = "round_even (ln ?q * 2 ^ 52)"
  have two_pi: "a_mul binary64 (Fin 2) (a_pi binary64) = Fin ?q"
  proof -
    have "a_pi binary64 = Fin (884279719003555 / 2 ^ 48)" by (simp add: binary64_def)
    then have "a_mul binary64 (Fin 2) (a_pi binary64) = rnd (2 * (884279719003555 / 2 ^ 48))"
      by (simp only: a_mul_binary64)
    also have "2 * (884279719003555 / 2 ^ 48) = ?q" by simp
    finally show ?thesis by (simp only: rnd_two_pi)
  qed
  have "(2 ^ 52 :: real) + 1 \<le> 4 / 3 * 2 ^ 52" by simp
  also have "\<dots> \<le> ln ?q * 2 ^ 52"
    using ln_two_pi_lower by (intro mult_right_mono) simp_all
  finally have "(2 ^ 52 + 1 :: int) \<le> \<lfloor>ln ?q * 2 ^ 52\<rfloor>"
    by (simp add: le_floor_iff)
  with round_even_ge [of "ln ?q * 2 ^ 52"] have lo: "2 ^ 52 < ?m" by linarith
  have "ln ?q * 2 ^ 52 \<le> 31 / 16 * 2 ^ 52"
    using ln_two_pi_upper by (intro mult_right_mono) simp_all
  then have "\<lceil>ln ?q * 2 ^ 52\<rceil> \<le> (31 * 2 ^ 48 :: int)"
    by (simp add: ceiling_le_iff)
  moreover have "(31 * 2 ^ 48 :: int) < 2 ^ 53" by simp
  ultimately have hi: "?m < 2 ^ 53"
    using round_even_le [of "ln ?q * 2 ^ 52"] by linarith
  have l1: "2 powr of_int 0 \<le> \<bar>ln ?q\<bar>" and l2: "\<bar>ln ?q\<bar> < 2 powr (of_int 0 + 1)"
    using ln_two_pi_lower ln_two_pi_upper by simp_all
  have r: "round_even (ln ?q / 2 powr of_int (0 - 52)) = ?m"
    by (simp add: powr_minus_divide)
  have "\<bar>real_of_int ?m\<bar> < 2 ^ 53"
    using lo hi by simp
  then have "\<bar>real_of_int ?m * 2 powr of_int (0 - 52)\<bar> < 2 ^ 53"
    by (simp add: powr_minus_divide abs_mult)
  also have "(2 ^ 53 :: real) < 2 ^ 1024" by simp
  finally have b: "\<bar>real_of_int ?m * 2 powr of_int (0 - 52)\<bar> < 2 ^ 1024" .
  have "rnd (ln ?q) = Fin (of_int ?m * 2 powr of_int (0 - 52))"
    using l1 l2 _ r b by (rule rnd_binade) simp
  then have "rnd (ln ?q) = Fin (of_int ?m / 2 ^ 52)"
    by (simp add: powr_minus_divide)
  then have "log_2pi_a binary64 = Fin (of_int ?m / 2 ^ 52)"
    by (simp add: log_2pi_a_def two_pi)
  with lo hi show ?thesis by blast
qed

text \<open>
  The roundings of the example, for any such \<open>m\<close>: \<open>c = m / 2\<^bsup>52\<^esup>\<close> lies between \<open>1\<close> and
  \<open>2\<close>. It is lost when added to \<open>2\<^bsup>54\<^esup>\<close>, half of it is lost when added to \<open>2\<^bsup>53\<^esup>\<close>, and
  \<open>c\<close> itself added to \<open>2\<^bsup>53\<^esup>\<close> is rounded up to the next double, \<open>2\<^bsup>53\<^esup> + 2\<close>.
\<close>

lemma rnd_c:
  assumes "2 ^ 52 < m" and "m < 2 ^ 53"
  shows "rnd (of_int m / 2 ^ 52) = Fin (of_int m / 2 ^ 52)"
  by (rule rnd_exact_div [of _ m 52]) (use assms in simp_all)

lemma rnd_half_c:
  assumes "2 ^ 52 < m" and "m < 2 ^ 53"
  shows "rnd (of_int m / 2 ^ 53) = Fin (of_int m / 2 ^ 53)"
  by (rule rnd_exact_div [of _ m 53]) (use assms in simp_all)

lemma rnd_pow2_54_plus_c:
  assumes "2 ^ 52 < m" and "m < 2 ^ 53"
  shows "rnd (2 ^ 54 + of_int m / 2 ^ 52) = Fin (2 ^ 54)"
proof -
  let ?x = "2 ^ 54 + real_of_int m / 2 ^ 52"
  from assms have m0: "0 < real_of_int m" and m1: "real_of_int m < 2 ^ 53"
    by simp_all
  from m0 have p: "0 < real_of_int m / 2 ^ 52" by simp
  from m1 have q: "real_of_int m / 2 ^ 52 < 2" by simp
  have a: "2 powr of_int 54 \<le> \<bar>?x\<bar>" using p by simp
  have b: "\<bar>?x\<bar> < 2 powr (of_int 54 + 1)" using p q by simp
  have e: "?x / 2 powr of_int (54 - 52) = of_int (2 ^ 52) + real_of_int m / 2 ^ 54"
    by (simp add: add_divide_distrib)
  have "round_even (of_int (2 ^ 52) + real_of_int m / 2 ^ 54) = 2 ^ 52"
    using m0 m1 by (intro round_even_low) simp_all
  then have r: "round_even (?x / 2 powr of_int (54 - 52)) = 2 ^ 52"
    unfolding e .
  have "rnd ?x = Fin (of_int (2 ^ 52) * 2 powr of_int (54 - 52))"
    using a b _ r by (rule rnd_binade) simp_all
  then show ?thesis by simp
qed

lemma rnd_pow2_53_plus_half_c:
  assumes "2 ^ 52 < m" and "m < 2 ^ 53"
  shows "rnd (2 ^ 53 + of_int m / 2 ^ 53) = Fin (2 ^ 53)"
proof -
  let ?x = "2 ^ 53 + real_of_int m / 2 ^ 53"
  from assms have m0: "0 < real_of_int m" and m1: "real_of_int m < 2 ^ 53"
    by simp_all
  from m0 have p: "0 < real_of_int m / 2 ^ 53" by simp
  from m1 have q: "real_of_int m / 2 ^ 53 < 1" by simp
  have a: "2 powr of_int 53 \<le> \<bar>?x\<bar>" using p by simp
  have b: "\<bar>?x\<bar> < 2 powr (of_int 53 + 1)" using p q by simp
  have e: "?x / 2 powr of_int (53 - 52) = of_int (2 ^ 52) + real_of_int m / 2 ^ 54"
    by (simp add: add_divide_distrib)
  have "round_even (of_int (2 ^ 52) + real_of_int m / 2 ^ 54) = 2 ^ 52"
    using m0 m1 by (intro round_even_low) simp_all
  then have r: "round_even (?x / 2 powr of_int (53 - 52)) = 2 ^ 52"
    unfolding e .
  have "rnd ?x = Fin (of_int (2 ^ 52) * 2 powr of_int (53 - 52))"
    using a b _ r by (rule rnd_binade) simp_all
  then show ?thesis by simp
qed

lemma rnd_c_plus_pow2_53:
  assumes "2 ^ 52 < m" and "m < 2 ^ 53"
  shows "rnd (of_int m / 2 ^ 52 + 2 ^ 53) = Fin (2 ^ 53 + 2)"
proof -
  let ?x = "real_of_int m / 2 ^ 52 + 2 ^ 53"
  from assms have m0: "2 ^ 52 < real_of_int m" and m1: "real_of_int m < 2 ^ 53"
    by simp_all
  from m0 have p: "1 < real_of_int m / 2 ^ 52" by simp
  from m1 have q: "real_of_int m / 2 ^ 52 < 2" by simp
  have a: "2 powr of_int 53 \<le> \<bar>?x\<bar>" using p by simp
  have b: "\<bar>?x\<bar> < 2 powr (of_int 53 + 1)" using p q by simp
  have e: "?x / 2 powr of_int (53 - 52) = of_int (2 ^ 52) + real_of_int m / 2 ^ 53"
    by (simp add: add_divide_distrib)
  have "round_even (of_int (2 ^ 52) + real_of_int m / 2 ^ 53) = 2 ^ 52 + 1"
    using m0 m1 by (intro round_even_high) simp_all
  then have r: "round_even (?x / 2 powr of_int (53 - 52)) = 2 ^ 52 + 1"
    unfolding e .
  have "rnd ?x = Fin (of_int (2 ^ 52 + 1) * 2 powr of_int (53 - 52))"
    using a b _ r by (rule rnd_binade) simp_all
  then show ?thesis by simp
qed

lemma example_terms:
  "\<exists>m. 2 ^ 52 < m \<and> m < 2 ^ 53 \<and>
       nll_term_a binary64 0 [[Fin 134217728]] [Fin 0] [[Fin 1]] = Inr (Fin (2 ^ 53)) \<and>
       nll_term_a binary64 0 [[Fin 0]] [Fin 0] [[Fin 1]] = Inr (Fin (of_int m / 2 ^ 53))"
proof -
  from log_2pi_binary64 obtain m where m: "2 ^ 52 < m" "m < 2 ^ 53"
    and l: "log_2pi_a binary64 = Fin (of_int m / 2 ^ 52)" by blast
  have big: "nll_term_a binary64 0 [[Fin 134217728]] [Fin 0] [[Fin 1]] = Inr (Fin (2 ^ 53))"
    using rnd_c [OF m] rnd_pow2_54_plus_c [OF m]
    by (simp add: nll_term_a_def l find_finite_def submat_def elem_def n_rows_def n_cols_def
        colvec_of_def vsub_a_def vm_a_def dot_a_def dsum_a_def trans_m_def)
  have small: "nll_term_a binary64 0 [[Fin 0]] [Fin 0] [[Fin 1]] = Inr (Fin (of_int m / 2 ^ 53))"
    using rnd_c [OF m] rnd_half_c [OF m]
    by (simp add: nll_term_a_def l find_finite_def submat_def elem_def n_rows_def n_cols_def
        colvec_of_def vsub_a_def vm_a_def dot_a_def dsum_a_def trans_m_def)
  from m big small show ?thesis by blast
qed

text \<open>
  The claim as stated fails in binary64, at \<open>\<mu> = 0\<close>, \<open>K = 1\<close> and the three rows
  \<open>2\<^bsup>27\<^esup>\<close>, \<open>0\<close>, \<open>0\<close>. The row \<open>2\<^bsup>27\<^esup>\<close> has the value \<open>2\<^bsup>53\<^esup>\<close>, where the doubles are
  \<open>2\<close> apart; a row \<open>0\<close> has half the double of \<open>log (2\<pi>)\<close>, a value below \<open>1\<close>. Added
  to \<open>2\<^bsup>53\<^esup>\<close> one after the other, the two small values are lost both times. Added to
  each other first, they are the double of \<open>log (2\<pi>)\<close>, more than \<open>1\<close>, and the sum with
  \<open>2\<^bsup>53\<^esup>\<close> is rounded up: the sum of the parts and the value for the rows in another
  order are \<open>2\<^bsup>53\<^esup> + 2\<close>.
\<close>

theorem nllprec_rounding_counterexample:
  "nllprec_a binary64 ([[Fin 134217728]] @ [[Fin 0], [Fin 0]]) [Fin 0] [[Fin 1]]
     = Inr (Fin 9007199254740992) \<and>
   nll_parts_a binary64 [[Fin 134217728]] [[Fin 0], [Fin 0]] [Fin 0] [[Fin 1]]
     = Inr (Fin 9007199254740994) \<and>
   mset [[Fin 0], [Fin 0], [Fin 134217728]] = mset [[Fin 134217728], [Fin 0], [Fin 0]] \<and>
   nllprec_a binary64 [[Fin 0], [Fin 0], [Fin 134217728]] [Fin 0] [[Fin 1]]
     = Inr (Fin 9007199254740994)"
proof -
  from example_terms obtain m where m: "2 ^ 52 < m" "m < 2 ^ 53"
    and big: "nll_term_a binary64 0 [[Fin 134217728]] [Fin 0] [[Fin 1]] = Inr (Fin (2 ^ 53))"
    and small: "nll_term_a binary64 0 [[Fin 0]] [Fin 0] [[Fin 1]] = Inr (Fin (of_int m / 2 ^ 53))"
    by blast
  let ?D = "[[Fin 134217728], [Fin 0], [Fin 0]]" and ?D' = "[[Fin 0], [Fin 0], [Fin 134217728]]"
  let ?B = "[[Fin 0], [Fin 0]]"
  have r: "nll_term_a binary64 0 ?D mu S = nll_term_a binary64 0 [[Fin 134217728]] mu S"
    "nll_term_a binary64 (Suc 0) ?D mu S = nll_term_a binary64 0 [[Fin 0]] mu S"
    "nll_term_a binary64 (Suc (Suc 0)) ?D mu S = nll_term_a binary64 0 [[Fin 0]] mu S"
    "nll_term_a binary64 0 ?D' mu S = nll_term_a binary64 0 [[Fin 0]] mu S"
    "nll_term_a binary64 (Suc 0) ?D' mu S = nll_term_a binary64 0 [[Fin 0]] mu S"
    "nll_term_a binary64 (Suc (Suc 0)) ?D' mu S = nll_term_a binary64 0 [[Fin 134217728]] mu S"
    "nll_term_a binary64 0 ?B mu S = nll_term_a binary64 0 [[Fin 0]] mu S"
    "nll_term_a binary64 (Suc 0) ?B mu S = nll_term_a binary64 0 [[Fin 0]] mu S" for mu S
    using nll_term_a_row [of 0 ?D binary64 mu S] nll_term_a_row [of "Suc 0" ?D binary64 mu S]
      nll_term_a_row [of "Suc (Suc 0)" ?D binary64 mu S] nll_term_a_row [of 0 ?D' binary64 mu S]
      nll_term_a_row [of "Suc 0" ?D' binary64 mu S] nll_term_a_row [of "Suc (Suc 0)" ?D' binary64 mu S]
      nll_term_a_row [of 0 ?B binary64 mu S] nll_term_a_row [of "Suc 0" ?B binary64 mu S]
    by (simp_all add: n_cols_def)
  have s: "(m / 2 ^ 53 + m / 2 ^ 53 :: real) = m / 2 ^ 52" by simp
  have a: "nllprec_a binary64 ?D [Fin 0] [[Fin 1]] = Inr (Fin 9007199254740992)"
    using rnd_pow2_53_plus_half_c [OF m]
    by (simp add: nllprec_a_def n_rows_def nll_row_a_def r big small)
  have b1: "nllprec_a binary64 [[Fin 134217728]] [Fin 0] [[Fin 1]] = Inr (Fin 9007199254740992)"
    by (simp add: nllprec_a_def n_rows_def nll_row_a_def big)
  have b2: "nllprec_a binary64 ?B [Fin 0] [[Fin 1]] = Inr (Fin (of_int m / 2 ^ 52))"
    using rnd_half_c [OF m] rnd_c [OF m]
    by (simp add: nllprec_a_def n_rows_def nll_row_a_def r small)
  have b: "nll_parts_a binary64 [[Fin 134217728]] ?B [Fin 0] [[Fin 1]] = Inr (Fin 9007199254740994)"
    using rnd_c_plus_pow2_53 [OF m]
    by (simp add: nll_parts_a_def b1 b2 add.commute)
  have c: "nllprec_a binary64 ?D' [Fin 0] [[Fin 1]] = Inr (Fin 9007199254740994)"
    using rnd_half_c [OF m] rnd_c [OF m] rnd_c_plus_pow2_53 [OF m]
    by (simp add: nllprec_a_def n_rows_def nll_row_a_def r small big)
  have p: "mset ?D' = mset ?D" by simp
  from a b c p show ?thesis by simp
qed

end
